theory Spec2Isabelle
  imports Main "HOL-Library.Word" "HOL-Library.Multiset"
begin

unbundle bit_operations_syntax

section \<open>Values shared by the whole model\<close>

text \<open>
  The peer engine of \<^verbatim>\<open>file_sharing/peer.py\<close> and \<^verbatim>\<open>file_sharing/protocol.py\<close>.
  Python integers are \<^typ>\<open>int\<close>, byte strings are lists of 8-bit words, and list indices
  that the code obtains from \<^verbatim>\<open>range\<close> or from an unsigned \<^verbatim>\<open>struct.unpack\<close> are
  \<^typ>\<open>nat\<close>. An exception of the source is a value of \<open>py_error\<close>.
\<close>

type_synonym byte = "8 word"

datatype py_error =
  IndexError | StructError | ConnectionError | OSError | ValueError | ZeroDivisionError

datatype 'a outcome = Raise py_error | Return 'a

text \<open>\<^verbatim>\<open>math.ceil(a / b)\<close> for integers (the quotient taken exactly).\<close>

definition ceil_div :: "int \<Rightarrow> int \<Rightarrow> int" where
  "ceil_div a b = - ((- a) div b)"

section \<open>The piece store (class FileManager)\<close>

record file_manager =
  file_size :: int
  piece_size :: int
  num_pieces :: int
  bitfield :: "int list"
  requested_pieces :: "nat set"
  disk :: "byte list option"

text \<open>
  \<^verbatim>\<open>FileManager.__init__\<close>. The field \<open>disk\<close> is the content of the file under the
  peer directory, \<open>None\<close> when the file does not exist. A peer without the file creates
  it empty; a peer with the file takes what is already there (\<open>present\<close>).
\<close>

definition new_file_manager ::
  "bool \<Rightarrow> int \<Rightarrow> int \<Rightarrow> byte list option \<Rightarrow> file_manager outcome" where
  "new_file_manager has_file fsize psize present =
     (if psize = 0 then Raise ZeroDivisionError
      else let n = ceil_div fsize psize in
        Return \<lparr> file_size = fsize, piece_size = psize, num_pieces = n,
                 bitfield = replicate (nat n) (if has_file then 1 else 0),
                 requested_pieces = {},
                 disk = (if has_file then present else Some []) \<rparr>)"

definition has_piece :: "file_manager \<Rightarrow> nat \<Rightarrow> bool outcome" where
  "has_piece fm index =
     (if index < length (bitfield fm) then Return (bitfield fm ! index = 1)
      else Raise IndexError)"

definition has_complete_file :: "file_manager \<Rightarrow> bool" where
  "has_complete_file fm = list_all (\<lambda>b. b \<noteq> 0) (bitfield fm)"

text \<open>The body of the loop of \<^verbatim>\<open>get_bitfield_bytes\<close>.\<close>

definition pack_bit :: "int list \<Rightarrow> nat \<Rightarrow> byte list \<Rightarrow> byte list" where
  "pack_bit bf i bs =
     (if bf ! i = 1
      then bs[i div 8 := (bs ! (i div 8)) OR push_bit (7 - i mod 8) 1]
      else bs)"

definition get_bitfield_bytes :: "file_manager \<Rightarrow> byte list outcome" where
  "get_bitfield_bytes fm =
     (let n = num_pieces fm; num_bytes = ceil_div n 8 in
      if num_bytes < 0 then Raise ValueError
      else if int (length (bitfield fm)) < n then Raise IndexError
      else Return (fold (pack_bit (bitfield fm)) [0..<nat n] (replicate (nat num_bytes) 0)))"

text \<open>The body of the loop of \<^verbatim>\<open>update_bitfield_from_bytes\<close>.\<close>

definition unpack_bit :: "byte list \<Rightarrow> nat \<Rightarrow> int list \<Rightarrow> int list" where
  "unpack_bit bf_data i nb =
     (if i div 8 < length bf_data
      then (if (drop_bit (7 - i mod 8) (bf_data ! (i div 8))) AND 1 \<noteq> 0
            then nb[i := 1] else nb)
      else nb)"

definition update_bitfield_from_bytes :: "file_manager \<Rightarrow> byte list \<Rightarrow> int list" where
  "update_bitfield_from_bytes fm bf_data =
     fold (unpack_bit bf_data) [0..<nat (num_pieces fm)] (replicate (nat (num_pieces fm)) 0)"


definition file_write :: "byte list \<Rightarrow> nat \<Rightarrow> byte list \<Rightarrow> byte list" where
  \<comment> \<open>\<^verbatim>\<open>f.seek(offset); f.write(data)\<close> on a file opened \<^verbatim>\<open>r+b\<close>: bytes in place are
      overwritten, a gap past the end is filled with zero bytes.\<close>
  "file_write content offset data =
     (if data = [] then content
      else if offset \<le> length content
        then take offset content @ data @ drop (offset + length data) content
        else content @ replicate (offset - length content) 0 @ data)"

definition read_piece :: "file_manager \<Rightarrow> nat \<Rightarrow> byte list option outcome" where
  "read_piece fm index =
     (case has_piece fm index of
        Raise e \<Rightarrow> Raise e
      | Return False \<Rightarrow> Return None
      | Return True \<Rightarrow>
          (let offset = int index * piece_size fm;
               current_piece_size = min (piece_size fm) (file_size fm - offset)
           in case disk fm of
                None \<Rightarrow> Return None
              | Some content \<Rightarrow>
                  if offset < 0 then Return None
                  else if current_piece_size < - 1 then Raise ValueError
                  else if current_piece_size = - 1
                    then Return (Some (drop (nat offset) content))
                    else Return (Some (take (nat current_piece_size)
                                         (drop (nat offset) content)))))"

text \<open>
  \<^verbatim>\<open>write_piece\<close> returns the store with the exception or the boolean: the file is
  written and closed before the bitfield is indexed, so an \<^verbatim>\<open>IndexError\<close> leaves the
  bytes on disk. A missing file and a negative seek position are \<^verbatim>\<open>IOError\<close>s, which
  the function catches.
\<close>

definition write_piece ::
  "file_manager \<Rightarrow> nat \<Rightarrow> byte list \<Rightarrow> file_manager \<times> bool outcome" where
  "write_piece fm index data =
     (let offset = int index * piece_size fm
      in case disk fm of
           None \<Rightarrow> (fm, Return False)
         | Some content \<Rightarrow>
             if offset < 0 then (fm, Return False)
             else
               (let fm1 = fm\<lparr>disk := Some (file_write content (nat offset) data)\<rparr>
                in if index < length (bitfield fm)
                   then (fm1\<lparr>bitfield := (bitfield fm)[index := 1],
                              requested_pieces := requested_pieces fm - {index}\<rparr>,
                         Return True)
                   else (fm1, Raise IndexError)))"

section \<open>Framing (module struct, protocol.py)\<close>

abbreviation (input) MSG_CHOKE :: int where "MSG_CHOKE \<equiv> 0"
abbreviation (input) MSG_UNCHOKE :: int where "MSG_UNCHOKE \<equiv> 1"
abbreviation (input) MSG_INTERESTED :: int where "MSG_INTERESTED \<equiv> 2"
abbreviation (input) MSG_NOT_INTERESTED :: int where "MSG_NOT_INTERESTED \<equiv> 3"
abbreviation (input) MSG_HAVE :: int where "MSG_HAVE \<equiv> 4"
abbreviation (input) MSG_BITFIELD :: int where "MSG_BITFIELD \<equiv> 5"
abbreviation (input) MSG_REQUEST :: int where "MSG_REQUEST \<equiv> 6"
abbreviation (input) MSG_PIECE :: int where "MSG_PIECE \<equiv> 7"

definition be32 :: "int \<Rightarrow> byte list" where
  "be32 n = [word_of_int (n div 2 ^ 24), word_of_int (n div 2 ^ 16),
             word_of_int (n div 2 ^ 8), word_of_int n]"

definition pack_u32 :: "int \<Rightarrow> byte list outcome" where
  \<comment> \<open>\<^verbatim>\<open>struct.pack('!I', n)\<close>\<close>
  "pack_u32 n = (if 0 \<le> n \<and> n < 2 ^ 32 then Return (be32 n) else Raise StructError)"

definition unpack_u32 :: "byte list \<Rightarrow> nat outcome" where
  \<comment> \<open>\<^verbatim>\<open>struct.unpack('!I', b)[0]\<close>\<close>
  "unpack_u32 bs =
     (case bs of
        [a, b, c, d] \<Rightarrow>
          Return (nat (uint a * 2 ^ 24 + uint b * 2 ^ 16 + uint c * 2 ^ 8 + uint d))
      | _ \<Rightarrow> Raise StructError)"

definition pack_header :: "int \<Rightarrow> int \<Rightarrow> byte list outcome" where
  \<comment> \<open>\<^verbatim>\<open>struct.pack('!IB', packet_len, msg_type)\<close>\<close>
  "pack_header packet_len msg_type =
     (if 0 \<le> packet_len \<and> packet_len < 2 ^ 32 \<and> 0 \<le> msg_type \<and> msg_type < 256
      then Return (be32 packet_len @ [word_of_int msg_type])
      else Raise StructError)"

section \<open>Neighbor sessions (class PeerConnection)\<close>

text \<open>
  A socket is what the engine can observe of its transport: whether \<^verbatim>\<open>close\<close> was called
  on it, whether the transport has failed, and the byte strings that \<^verbatim>\<open>sendall\<close>
  delivered, in order. \<^verbatim>\<open>sendall\<close> on a closed or failed socket raises.
\<close>

record socket =
  sock_closed :: bool
  sock_broken :: bool
  sock_sent :: "byte list list"

definition sendall :: "socket \<Rightarrow> byte list \<Rightarrow> socket outcome" where
  "sendall s bytes =
     (if sock_closed s \<or> sock_broken s then Raise OSError
      else Return (s\<lparr>sock_sent := sock_sent s @ [bytes]\<rparr>))"

record peer_connection =
  sock :: socket
  neighbor_id :: nat
  am_choking :: bool
  am_interested :: bool
  peer_choking :: bool
  peer_interested :: bool
  neighbor_bitfield :: "int list"
  download_rate :: int
  downloaded_bytes_interval :: int
  is_optimistic :: bool

text \<open>
  \<^verbatim>\<open>PeerConnection.__init__\<close>. The attribute \<^verbatim>\<open>is_optimistic\<close> is created by the
  optimistic timer and read with \<^verbatim>\<open>getattr(c, 'is_optimistic', False)\<close>: absent is
  \<open>False\<close>.
\<close>

definition new_peer_connection :: "socket \<Rightarrow> nat \<Rightarrow> int \<Rightarrow> peer_connection" where
  "new_peer_connection s nid n =
     \<lparr> sock = s, neighbor_id = nid, am_choking = True, am_interested = False,
       peer_choking = True, peer_interested = False,
       neighbor_bitfield = replicate (nat n) 0,
       download_rate = 0, downloaded_bytes_interval = 0, is_optimistic = False \<rparr>"

text \<open>
  \<^verbatim>\<open>send_message\<close>: the header is packed before the \<^verbatim>\<open>try\<close>; only the socket write is
  inside it, and whatever it raises is printed and dropped.
\<close>

definition send_message :: "peer_connection \<Rightarrow> int \<Rightarrow> byte list \<Rightarrow> peer_connection outcome" where
  "send_message c msg_type payload =
     (let packet_len = 1 + int (length payload)
      in case pack_header packet_len msg_type of
           Raise e \<Rightarrow> Raise e
         | Return header \<Rightarrow>
             (case sendall (sock c) (header @ payload) of
                Raise e \<Rightarrow> Return c
              | Return s \<Rightarrow> Return (c\<lparr>sock := s\<rparr>)))"

definition close :: "peer_connection \<Rightarrow> peer_connection" where
  "close c = c\<lparr>sock := (sock c)\<lparr>sock_closed := True\<rparr>\<rparr>"

section \<open>The peer (class Peer)\<close>

text \<open>
  \<^verbatim>\<open>PeerConnection\<close> objects are shared between the registry, the receive threads and
  the timers, and are compared by identity (\<^verbatim>\<open>c in preferred\<close>, \<^verbatim>\<open>c != chosen\<close>). The
  model keeps them in a store indexed by address; the registry \<^verbatim>\<open>self.connections\<close> is
  the dictionary from neighbor identifier to address, in insertion order. The logger is an
  external collaborator and is left out. Each handler, each timer cycle and each poll is
  one atomic step: the interleaving of threads inside a step is not part of the model.
\<close>

record peer =
  preferred_k :: int
  n_peers :: nat
  file_mgr :: file_manager
  store :: "nat \<Rightarrow> peer_connection"
  next_addr :: nat
  connections :: "(nat \<times> nat) list"
  server_socket :: "socket option"
  running :: bool
  exited :: bool

definition open_socket :: socket where
  "open_socket = \<lparr> sock_closed = False, sock_broken = False, sock_sent = [] \<rparr>"

definition new_peer ::
  "int \<Rightarrow> nat \<Rightarrow> bool \<Rightarrow> int \<Rightarrow> int \<Rightarrow> byte list option \<Rightarrow> peer outcome" where
  \<comment> \<open>\<^verbatim>\<open>Peer.__init__\<close>, from the configuration values it reads\<close>
  "new_peer k n has_file fsize psize present =
     (case new_file_manager has_file fsize psize present of
        Raise e \<Rightarrow> Raise e
      | Return f \<Rightarrow>
          Return \<lparr> preferred_k = k, n_peers = n, file_mgr = f,
                   store = (\<lambda>_. new_peer_connection open_socket 0 0), next_addr = 0,
                   connections = [], server_socket = None,
                   running = True, exited = False \<rparr>)"

fun dict_set :: "('k \<times> 'v) list \<Rightarrow> 'k \<Rightarrow> 'v \<Rightarrow> ('k \<times> 'v) list" where
  \<comment> \<open>\<^verbatim>\<open>d[k] = v\<close>: an existing key keeps its position\<close>
  "dict_set [] k v = [(k, v)]"
| "dict_set ((k', v') # d) k v =
     (if k' = k then (k, v) # d else (k', v') # dict_set d k v)"

definition dict_values :: "('k \<times> 'v) list \<Rightarrow> 'v list" where
  "dict_values d = map snd d"

definition upd_conn :: "nat \<Rightarrow> (peer_connection \<Rightarrow> peer_connection) \<Rightarrow> peer \<Rightarrow> peer" where
  "upd_conn a f st = st\<lparr>store := (store st)(a := f (store st a))\<rparr>"

definition and_then ::
  "peer \<times> py_error option \<Rightarrow> (peer \<Rightarrow> peer \<times> py_error option) \<Rightarrow> peer \<times> py_error option" where
  "and_then m f = (case m of (st, None) \<Rightarrow> f st | (st, Some e) \<Rightarrow> (st, Some e))"

definition send_to :: "peer \<Rightarrow> nat \<Rightarrow> int \<Rightarrow> byte list \<Rightarrow> peer \<times> py_error option" where
  \<comment> \<open>\<^verbatim>\<open>conn.send_message(msg_type, payload)\<close> for the connection at address \<open>a\<close>\<close>
  "send_to st a msg_type payload =
     (case send_message (store st a) msg_type payload of
        Raise e \<Rightarrow> (st, Some e)
      | Return c \<Rightarrow> (st\<lparr>store := (store st)(a := c)\<rparr>, None))"

text \<open>
  The interest loops of \<^verbatim>\<open>process_message\<close> (BITFIELD) and \<^verbatim>\<open>check_interest\<close>:
  \<^verbatim>\<open>has_piece(i)\<close> is evaluated only where the neighbor bit is 1, and the loop stops at
  the first piece wanted.
\<close>

fun wants_any :: "file_manager \<Rightarrow> int list \<Rightarrow> nat list \<Rightarrow> bool outcome" where
  "wants_any fm nb [] = Return False"
| "wants_any fm nb (i # is) =
     (if nb ! i = 1
      then (case has_piece fm i of
              Raise e \<Rightarrow> Raise e
            | Return h \<Rightarrow> if \<not> h then Return True else wants_any fm nb is)
      else wants_any fm nb is)"

definition check_interest :: "peer \<Rightarrow> nat \<Rightarrow> peer \<times> py_error option" where
  "check_interest st a =
     (let nb = neighbor_bitfield (store st a)
      in case wants_any (file_mgr st) nb [0..<length nb] of
           Raise e \<Rightarrow> (st, Some e)
         | Return still_interested \<Rightarrow>
             if \<not> still_interested \<and> am_interested (store st a)
             then and_then (send_to st a MSG_NOT_INTERESTED [])
                    (\<lambda>st'. (upd_conn a (\<lambda>c. c\<lparr>am_interested := False\<rparr>) st', None))
             else (st, None))"

fun available_pieces :: "file_manager \<Rightarrow> int list \<Rightarrow> nat list \<Rightarrow> nat list outcome" where
  "available_pieces fm nb [] = Return []"
| "available_pieces fm nb (i # is) =
     (if nb ! i = 1
      then (case has_piece fm i of
              Raise e \<Rightarrow> Raise e
            | Return h \<Rightarrow>
                if \<not> h \<and> i \<notin> requested_pieces fm
                then (case available_pieces fm nb is of
                        Raise e \<Rightarrow> Raise e
                      | Return av \<Rightarrow> Return (i # av))
                else available_pieces fm nb is)
      else available_pieces fm nb is)"

text \<open>
  \<^verbatim>\<open>request_piece\<close>. The argument \<open>r\<close> is the draw of \<^verbatim>\<open>random.choice\<close>: the element at
  position \<open>r mod length\<close>.
\<close>

definition request_piece :: "peer \<Rightarrow> nat \<Rightarrow> nat \<Rightarrow> peer \<times> py_error option" where
  "request_piece st a r =
     (let nb = neighbor_bitfield (store st a)
      in case available_pieces (file_mgr st) nb [0..<length nb] of
           Raise e \<Rightarrow> (st, Some e)
         | Return av \<Rightarrow>
             if av \<noteq> [] then
               (let idx = av ! (r mod length av);
                    f = file_mgr st;
                    st1 = st\<lparr>file_mgr := f\<lparr>requested_pieces := insert idx (requested_pieces f)\<rparr>\<rparr>
                in case pack_u32 (int idx) of
                     Raise e \<Rightarrow> (st1, Some e)
                   | Return payload \<Rightarrow> send_to st1 a MSG_REQUEST payload)
             else (st, None))"

definition handle_have :: "peer \<Rightarrow> nat \<Rightarrow> byte list \<Rightarrow> peer \<times> py_error option" where
  "handle_have st a payload =
     (case unpack_u32 payload of
        Raise e \<Rightarrow> (st, Some e)
      | Return piece_index \<Rightarrow>
          if piece_index < length (neighbor_bitfield (store st a)) then
            (let st1 = upd_conn a
                   (\<lambda>c. c\<lparr>neighbor_bitfield := (neighbor_bitfield c)[piece_index := 1]\<rparr>) st
             in case has_piece (file_mgr st1) piece_index of
                  Raise e \<Rightarrow> (st1, Some e)
                | Return h \<Rightarrow>
                    if \<not> h
                    then and_then (send_to st1 a MSG_INTERESTED [])
                           (\<lambda>st'. (upd_conn a (\<lambda>c. c\<lparr>am_interested := True\<rparr>) st', None))
                    else (st1, None))
          else (st, Some IndexError))"

definition handle_bitfield :: "peer \<Rightarrow> nat \<Rightarrow> byte list \<Rightarrow> peer \<times> py_error option" where
  "handle_bitfield st a payload =
     (let nb = update_bitfield_from_bytes (file_mgr st) payload;
          st1 = upd_conn a (\<lambda>c. c\<lparr>neighbor_bitfield := nb\<rparr>) st
      in case wants_any (file_mgr st1) nb [0..<length nb] of
           Raise e \<Rightarrow> (st1, Some e)
         | Return interested \<Rightarrow>
             if interested
             then and_then (send_to st1 a MSG_INTERESTED [])
                    (\<lambda>st'. (upd_conn a (\<lambda>c. c\<lparr>am_interested := True\<rparr>) st', None))
             else and_then (send_to st1 a MSG_NOT_INTERESTED [])
                    (\<lambda>st'. (upd_conn a (\<lambda>c. c\<lparr>am_interested := False\<rparr>) st', None)))"

definition handle_request :: "peer \<Rightarrow> nat \<Rightarrow> byte list \<Rightarrow> peer \<times> py_error option" where
  "handle_request st a payload =
     (if \<not> am_choking (store st a) then
        (case unpack_u32 payload of
           Raise e \<Rightarrow> (st, Some e)
         | Return piece_index \<Rightarrow>
             (case read_piece (file_mgr st) piece_index of
                Raise e \<Rightarrow> (st, Some e)
              | Return None \<Rightarrow> (st, None)
              | Return (Some data) \<Rightarrow>
                  if data \<noteq> [] then
                    (case pack_u32 (int piece_index) of
                       Raise e \<Rightarrow> (st, Some e)
                     | Return pidx \<Rightarrow>
                         and_then (send_to st a MSG_PIECE (pidx @ data))
                           (\<lambda>st'. (upd_conn a (\<lambda>c. c\<lparr>downloaded_bytes_interval :=
                                      downloaded_bytes_interval c + int (length data)\<rparr>) st',
                                   None)))
                  else (st, None)))
      else (st, None))"

text \<open>
  The broadcast of \<^verbatim>\<open>HAVE\<close> after a piece is written: for every session of the
  registry, send and re-evaluate interest; an exception ends the loop.
\<close>

fun broadcast_have :: "peer \<Rightarrow> byte list \<Rightarrow> nat list \<Rightarrow> peer \<times> py_error option" where
  "broadcast_have st have_payload [] = (st, None)"
| "broadcast_have st have_payload (p # ps) =
     and_then (send_to st p MSG_HAVE have_payload)
       (\<lambda>st1. and_then (check_interest st1 p)
          (\<lambda>st2. broadcast_have st2 have_payload ps))"

definition handle_piece :: "peer \<Rightarrow> nat \<Rightarrow> byte list \<Rightarrow> nat \<Rightarrow> peer \<times> py_error option" where
  "handle_piece st a payload r =
     (case unpack_u32 (take 4 payload) of
        Raise e \<Rightarrow> (st, Some e)
      | Return piece_index \<Rightarrow>
          (let piece_data = drop 4 payload
           in case write_piece (file_mgr st) piece_index piece_data of
                (f, Raise e) \<Rightarrow> (st\<lparr>file_mgr := f\<rparr>, Some e)
              | (f, Return False) \<Rightarrow> (st\<lparr>file_mgr := f\<rparr>, None)
              | (f, Return True) \<Rightarrow>
                  (let st1 = upd_conn a (\<lambda>c. c\<lparr>downloaded_bytes_interval :=
                               downloaded_bytes_interval c + int (length piece_data)\<rparr>)
                               (st\<lparr>file_mgr := f\<rparr>)
                   in case pack_u32 (int piece_index) of
                        Raise e \<Rightarrow> (st1, Some e)
                      | Return have_payload \<Rightarrow>
                          and_then (broadcast_have st1 have_payload (dict_values (connections st1)))
                            (\<lambda>st2. if \<not> peer_choking (store st2 a)
                                    then request_piece st2 a r
                                    else (st2, None)))))"

definition process_message ::
  "peer \<Rightarrow> nat \<Rightarrow> int \<Rightarrow> byte list \<Rightarrow> nat \<Rightarrow> peer \<times> py_error option" where
  "process_message st a msg_type payload r =
     (if msg_type = MSG_CHOKE then
        (upd_conn a (\<lambda>c. c\<lparr>peer_choking := True\<rparr>) st, None)
      else if msg_type = MSG_UNCHOKE then
        request_piece (upd_conn a (\<lambda>c. c\<lparr>peer_choking := False\<rparr>) st) a r
      else if msg_type = MSG_INTERESTED then
        (upd_conn a (\<lambda>c. c\<lparr>peer_interested := True\<rparr>) st, None)
      else if msg_type = MSG_NOT_INTERESTED then
        (upd_conn a (\<lambda>c. c\<lparr>peer_interested := False\<rparr>) st, None)
      else if msg_type = MSG_HAVE then handle_have st a payload
      else if msg_type = MSG_BITFIELD then handle_bitfield st a payload
      else if msg_type = MSG_REQUEST then handle_request st a payload
      else if msg_type = MSG_PIECE then handle_piece st a payload r
      else (st, None))"

section \<open>Registration and the receive loop\<close>

text \<open>
  What \<^verbatim>\<open>connect_to_peer\<close> and \<^verbatim>\<open>handle_incoming_connection\<close> do once the handshake
  has given the neighbor identifier: create the session, register it, send the bitfield.
\<close>

definition register :: "peer \<Rightarrow> nat \<Rightarrow> peer \<times> py_error option" where
  "register st nid =
     (let a = next_addr st;
          connection = new_peer_connection open_socket nid (num_pieces (file_mgr st));
          st1 = st\<lparr>store := (store st)(a := connection), next_addr := Suc a,
                   connections := dict_set (connections st) nid a\<rparr>
      in case get_bitfield_bytes (file_mgr st1) of
           Raise e \<Rightarrow> (st1, Some e)
         | Return bf_payload \<Rightarrow> send_to st1 a MSG_BITFIELD bf_payload)"

definition read_n_bytes :: "socket \<Rightarrow> byte list \<Rightarrow> nat \<Rightarrow> byte list outcome" where
  \<comment> \<open>the first \<open>n\<close> bytes of what the transport still delivers (\<open>inp\<close>), or the error
      raised when the transport ends or fails before\<close>
  "read_n_bytes s inp n =
     (if n = 0 then Return []
      else if sock_closed s \<or> sock_broken s then Raise OSError
      else if length inp < n then Raise ConnectionError
      else Return (take n inp))"

text \<open>
  \<^verbatim>\<open>message_handler\<close>, run on the bytes \<open>inp\<close> that arrive before the transport ends
  or fails; \<open>rs\<close> supplies the random draws. Every exception ends the loop, and the
  \<^verbatim>\<open>finally\<close> clause closes the session.
\<close>

function message_handler :: "peer \<Rightarrow> nat \<Rightarrow> byte list \<Rightarrow> (nat \<Rightarrow> nat) \<Rightarrow> peer" where
  "message_handler st a inp rs =
     (if \<not> running st then upd_conn a close st
      else
        (case read_n_bytes (sock (store st a)) inp 4 of
           Raise e \<Rightarrow> upd_conn a close st
         | Return length_bytes \<Rightarrow>
             (case unpack_u32 length_bytes of
                Raise e \<Rightarrow> upd_conn a close st
              | Return msg_len \<Rightarrow>
                  if msg_len > 0 then
                    (case read_n_bytes (sock (store st a)) (drop 4 inp) msg_len of
                       Raise e \<Rightarrow> upd_conn a close st
                     | Return msg_body \<Rightarrow>
                         (case process_message st a (uint (hd msg_body)) (tl msg_body) (rs 0) of
                            (st', Some e) \<Rightarrow> upd_conn a close st'
                          | (st', None) \<Rightarrow>
                              message_handler st' a (drop (4 + msg_len) inp) (\<lambda>i. rs (Suc i))))
                  else message_handler st a (drop 4 inp) rs)))"
  by pat_completeness auto
termination
  by (relation "measure (\<lambda>(st, a, inp, rs). length inp)")
     (auto simp: read_n_bytes_def split: if_splits)

definition handler_step :: "peer \<Rightarrow> nat \<Rightarrow> int \<Rightarrow> byte list \<Rightarrow> nat \<Rightarrow> peer" where
  \<comment> \<open>one iteration of the loop of \<^verbatim>\<open>message_handler\<close> on a frame that has arrived\<close>
  "handler_step st a msg_type payload r =
     (case process_message st a msg_type payload r of
        (st', Some e) \<Rightarrow> upd_conn a close st'
      | (st', None) \<Rightarrow> st')"

section \<open>The unchoke schedulers\<close>

definition py_take :: "int \<Rightarrow> 'a list \<Rightarrow> 'a list" where
  \<comment> \<open>the slice \<^verbatim>\<open>xs[:k]\<close>\<close>
  "py_take k xs = (if k < 0 then take (nat (int (length xs) + k)) xs else take (nat k) xs)"

definition shuffle :: "nat list \<Rightarrow> 'a list \<Rightarrow> 'a list" where
  \<comment> \<open>\<^verbatim>\<open>random.shuffle\<close>, the draw being the permutation \<open>perm\<close> of the positions; a list
      that is no permutation of the positions stands for the identity\<close>
  "shuffle perm xs =
     (if sort perm = [0..<length xs] then map (\<lambda>i. xs ! i) perm else xs)"

definition sort_by_bytes_desc :: "(nat \<Rightarrow> peer_connection) \<Rightarrow> nat list \<Rightarrow> nat list" where
  \<comment> \<open>\<^verbatim>\<open>sort(key=lambda x: x.downloaded_bytes_interval, reverse=True)\<close>: stable,
      sessions with equal keys keep their order\<close>
  "sort_by_bytes_desc h xs = sort_key (\<lambda>c. - downloaded_bytes_interval (h c)) xs"

definition select_preferred :: "peer \<Rightarrow> nat list \<Rightarrow> nat list \<Rightarrow> nat list" where
  "select_preferred st perm interested_neighbors =
     (if has_complete_file (file_mgr st)
      then py_take (preferred_k st) (shuffle perm interested_neighbors)
      else py_take (preferred_k st) (sort_by_bytes_desc (store st) interested_neighbors))"

definition choke_step :: "nat list \<Rightarrow> nat \<Rightarrow> peer \<Rightarrow> peer" where
  \<comment> \<open>the body of the loop that applies the choke and unchoke decisions\<close>
  "choke_step preferred c st =
     (let st1 =
        (if c \<in> set preferred then
           (if am_choking (store st c)
            then fst (send_to (upd_conn c (\<lambda>x. x\<lparr>am_choking := False\<rparr>) st) c MSG_UNCHOKE [])
            else st)
         else
           (if \<not> am_choking (store st c) \<and> \<not> is_optimistic (store st c)
            then fst (send_to (upd_conn c (\<lambda>x. x\<lparr>am_choking := True\<rparr>) st) c MSG_CHOKE [])
            else st))
      in upd_conn c (\<lambda>x. x\<lparr>downloaded_bytes_interval := 0\<rparr>) st1)"

definition interested_snapshot :: "peer \<Rightarrow> nat list" where
  "interested_snapshot st =
     filter (\<lambda>c. peer_interested (store st c)) (dict_values (connections st))"

definition choking_cycle :: "peer \<Rightarrow> nat list \<Rightarrow> peer" where
  \<comment> \<open>one iteration of \<^verbatim>\<open>choking_timer\<close> after its sleep\<close>
  "choking_cycle st perm =
     (let interested_neighbors = interested_snapshot st
      in if interested_neighbors = [] then st
         else
           (let preferred = select_preferred st perm interested_neighbors
            in fold (choke_step preferred) (dict_values (connections st)) st))"

definition optimistic_candidates :: "peer \<Rightarrow> nat list" where
  "optimistic_candidates st =
     filter (\<lambda>c. am_choking (store st c) \<and> peer_interested (store st c))
       (dict_values (connections st))"

definition clear_optimistic :: "nat \<Rightarrow> nat \<Rightarrow> peer \<Rightarrow> peer" where
  "clear_optimistic chosen c st =
     (if c \<noteq> chosen then upd_conn c (\<lambda>x. x\<lparr>is_optimistic := False\<rparr>) st else st)"

definition optimistic_cycle :: "peer \<Rightarrow> nat \<Rightarrow> peer" where
  \<comment> \<open>one iteration of \<^verbatim>\<open>optimistic_unchoking_timer\<close> after its sleep\<close>
  "optimistic_cycle st r =
     (let candidates = optimistic_candidates st
      in if candidates \<noteq> [] then
           (let chosen = candidates ! (r mod length candidates);
                st1 = upd_conn chosen (\<lambda>x. x\<lparr>is_optimistic := True\<rparr>) st;
                st2 = (if am_choking (store st1 chosen)
                       then fst (send_to (upd_conn chosen (\<lambda>x. x\<lparr>am_choking := False\<rparr>) st1)
                                   chosen MSG_UNCHOKE [])
                       else st1)
            in fold (clear_optimistic chosen) (dict_values (connections st2)) st2)
         else st)"

section \<open>The termination detector\<close>

definition all_neighbors_done :: "peer \<Rightarrow> bool" where
  "all_neighbors_done st =
     list_all (\<lambda>c. \<not> sum_list (neighbor_bitfield (store st c)) < num_pieces (file_mgr st))
       (dict_values (connections st))"

definition should_exit :: "peer \<Rightarrow> bool" where
  "should_exit st \<longleftrightarrow>
     has_complete_file (file_mgr st) \<and> all_neighbors_done st \<and>
     int (length (connections st)) = int (n_peers st) - 1"

definition shutdown :: "peer \<Rightarrow> peer" where
  "shutdown st =
     (let st1 = fold (\<lambda>c. upd_conn c close) (dict_values (connections st)) (st\<lparr>running := False\<rparr>)
      in st1\<lparr>server_socket := map_option (\<lambda>s. s\<lparr>sock_closed := True\<rparr>) (server_socket st1),
             exited := True\<rparr>)"

definition termination_check :: "peer \<Rightarrow> peer" where
  \<comment> \<open>one iteration of \<^verbatim>\<open>termination_check_loop\<close> after its sleep\<close>
  "termination_check st =
     (if \<not> has_complete_file (file_mgr st) then st
      else if all_neighbors_done st \<and> int (length (connections st)) = int (n_peers st) - 1
        then shutdown st
        else st)"

section \<open>Runs of a peer\<close>

text \<open>
  What can happen to a peer, one atomic step each: the listener starts; a handshake
  completes with the neighbor of some identifier; the receive loop of the session at an
  address reads a frame (type, payload, and the random draw for the request it may make);
  the transport of a session fails, so that writes on it raise from then on; the receive
  loop of a session finds its transport ended and closes the session; the
  preferred-neighbor timer fires (with the permutation its shuffle draws); the optimistic
  timer fires (with its random draw); the termination detector polls. After the exit
  nothing happens any more.
\<close>

definition break_transport :: "peer_connection \<Rightarrow> peer_connection" where
  "break_transport c = c\<lparr>sock := (sock c)\<lparr>sock_broken := True\<rparr>\<rparr>"

datatype event =
    ServerStart
  | Connect nat
  | Frame nat int "byte list" nat
  | TransportFailure nat
  | TransportError nat
  | ChokeTick "nat list"
  | OptimisticTick nat
  | TerminationTick

definition apply_event :: "peer \<Rightarrow> event \<Rightarrow> peer" where
  "apply_event st ev =
     (if exited st then st
      else case ev of
        ServerStart \<Rightarrow> st\<lparr>server_socket := Some open_socket\<rparr>
      | Connect nid \<Rightarrow> fst (register st nid)
      | Frame a msg_type payload r \<Rightarrow>
          if a < next_addr st \<and> \<not> sock_closed (sock (store st a))
          then handler_step st a msg_type payload r else st
      | TransportFailure a \<Rightarrow>
          if a < next_addr st then upd_conn a break_transport st else st
      | TransportError a \<Rightarrow> if a < next_addr st then upd_conn a close st else st
      | ChokeTick perm \<Rightarrow> choking_cycle st perm
      | OptimisticTick r \<Rightarrow> optimistic_cycle st r
      | TerminationTick \<Rightarrow> termination_check st)"

definition run :: "peer \<Rightarrow> event list \<Rightarrow> peer" where
  "run st evs = foldl apply_event st evs"

section \<open>Example configurations\<close>

text \<open>A store of ten pieces that holds pieces 0 and 9.\<close>

definition store10 :: file_manager where
  "store10 = \<lparr> file_size = 100, piece_size = 10, num_pieces = 10,
               bitfield = [1, 0, 0, 0, 0, 0, 0, 0, 0, 1],
               requested_pieces = {}, disk = Some [] \<rparr>"

definition example_leecher :: peer where
  "example_leecher = (case new_peer 1 4 False 30 10 None of Return p \<Rightarrow> p)"

definition example_seeder :: peer where
  "example_seeder = (case new_peer 1 4 True 30 10 (Some (replicate 30 7)) of Return p \<Rightarrow> p)"





section \<open>Observations on a state\<close>

definition frame_of :: "int \<Rightarrow> byte list \<Rightarrow> byte list" where
  \<comment> \<open>the bytes of one frame on the wire: length, type, payload\<close>
  "frame_of msg_type payload =
     be32 (1 + int (length payload)) @ [word_of_int msg_type] @ payload"

definition sent_frames :: "peer \<Rightarrow> nat \<Rightarrow> byte list list" where
  "sent_frames st a = sock_sent (sock (store st a))"

definition sock_up :: "peer_connection \<Rightarrow> bool" where
  "sock_up c \<longleftrightarrow> \<not> sock_closed (sock c) \<and> \<not> sock_broken (sock c)"

definition unchoked_count :: "peer \<Rightarrow> nat" where
  "unchoked_count st =
     length (filter (\<lambda>c. \<not> am_choking (store st c)) (dict_values (connections st)))"


section \<open>Invariants and frames\<close>

definition held_pieces :: "file_manager \<Rightarrow> nat set" where
  "held_pieces f = {i \<in> set [0..<length (bitfield f)]. bitfield f ! i = 1}"

definition binary :: "int list \<Rightarrow> bool" where
  "binary bs \<longleftrightarrow> list_all (\<lambda>b. b = 0 \<or> b = 1) bs"

definition bits_mono :: "int list \<Rightarrow> int list \<Rightarrow> bool" where
  "bits_mono bs bs' \<longleftrightarrow>
     length bs' = length bs \<and> (\<forall>i < length bs. bs ! i = 1 \<longrightarrow> bs' ! i = 1)"

text \<open>What every operation of the engine leaves true of the piece store.\<close>

definition fm_frame :: "file_manager \<Rightarrow> file_manager \<Rightarrow> bool" where
  "fm_frame f f' \<longleftrightarrow>
     file_size f' = file_size f \<and> piece_size f' = piece_size f \<and>
     num_pieces f' = num_pieces f \<and>
     bits_mono (bitfield f) (bitfield f') \<and>
     (binary (bitfield f) \<longrightarrow> binary (bitfield f')) \<and>
     (requested_pieces f \<inter> held_pieces f = {} \<longrightarrow> requested_pieces f' \<inter> held_pieces f' = {})"

text \<open>What a message handler leaves unchanged in a session.\<close>

definition conn_frame :: "peer_connection \<Rightarrow> peer_connection \<Rightarrow> bool" where
  "conn_frame c c' \<longleftrightarrow>
     neighbor_id c' = neighbor_id c \<and> is_optimistic c' = is_optimistic c \<and>
     am_choking c' = am_choking c \<and>
     sock_closed (sock c') = sock_closed (sock c) \<and>
     sock_broken (sock c') = sock_broken (sock c)"

definition bits_ok :: "peer \<Rightarrow> int list \<Rightarrow> bool" where
  "bits_ok st bs \<longleftrightarrow> length bs = nat (num_pieces (file_mgr st)) \<and> binary bs"

text \<open>
  What a message handler leaves true of the peer; \<open>X\<close> holds the addresses of the
  sessions whose neighbor bitmap may have been replaced.
\<close>

definition peer_frame :: "nat set \<Rightarrow> peer \<Rightarrow> peer \<Rightarrow> bool" where
  "peer_frame X st st' \<longleftrightarrow>
     connections st' = connections st \<and> next_addr st' = next_addr st \<and>
     running st' = running st \<and> exited st' = exited st \<and>
     server_socket st' = server_socket st \<and>
     n_peers st' = n_peers st \<and> preferred_k st' = preferred_k st \<and>
     fm_frame (file_mgr st) (file_mgr st') \<and>
     (\<forall>b. conn_frame (store st b) (store st' b)) \<and>
     (\<forall>b. bits_ok st (neighbor_bitfield (store st b)) \<longrightarrow>
          bits_ok st' (neighbor_bitfield (store st' b))) \<and>
     (\<forall>b. b \<notin> X \<longrightarrow>
          bits_mono (neighbor_bitfield (store st b)) (neighbor_bitfield (store st' b)))"

text \<open>What a timer cycle leaves unchanged.\<close>

definition timer_frame :: "peer \<Rightarrow> peer \<Rightarrow> bool" where
  "timer_frame st st' \<longleftrightarrow>
     connections st' = connections st \<and> next_addr st' = next_addr st \<and>
     running st' = running st \<and> exited st' = exited st \<and>
     server_socket st' = server_socket st \<and>
     n_peers st' = n_peers st \<and> preferred_k st' = preferred_k st \<and>
     file_mgr st' = file_mgr st \<and>
     (\<forall>b. neighbor_id (store st' b) = neighbor_id (store st b) \<and>
          neighbor_bitfield (store st' b) = neighbor_bitfield (store st b) \<and>
          sock_closed (sock (store st' b)) = sock_closed (sock (store st b)) \<and>
          sock_broken (sock (store st' b)) = sock_broken (sock (store st b)))"

text \<open>What every step other than a registration leaves true of the peer.\<close>

definition soft_frame :: "peer \<Rightarrow> peer \<Rightarrow> bool" where
  "soft_frame st st' \<longleftrightarrow>
     connections st' = connections st \<and> next_addr st' = next_addr st \<and>
     n_peers st' = n_peers st \<and> preferred_k st' = preferred_k st \<and>
     fm_frame (file_mgr st) (file_mgr st') \<and>
     (\<forall>b. neighbor_id (store st' b) = neighbor_id (store st b)) \<and>
     (\<forall>b. bits_ok st (neighbor_bitfield (store st b)) \<longrightarrow>
          bits_ok st' (neighbor_bitfield (store st' b)))"

definition registry_ok :: "peer \<Rightarrow> bool" where
  "registry_ok st \<longleftrightarrow>
     distinct (dict_values (connections st)) \<and>
     (\<forall>a \<in> set (dict_values (connections st)). a < next_addr st)"

text \<open>The invariant of the reachable states that the claims rest on.\<close>

definition stable :: "peer \<Rightarrow> bool" where
  "stable st \<longleftrightarrow>
     length (bitfield (file_mgr st)) = nat (num_pieces (file_mgr st)) \<and>
     binary (bitfield (file_mgr st)) \<and>
     requested_pieces (file_mgr st) \<inter> held_pieces (file_mgr st) = {} \<and>
     (\<forall>a < next_addr st. bits_ok st (neighbor_bitfield (store st a))) \<and>
     registry_ok st"

text \<open>The state after the registration of a new session, before its bitfield is sent.\<close>

definition registered :: "peer \<Rightarrow> nat \<Rightarrow> peer" where
  "registered st nid =
     st\<lparr>store := (store st)(next_addr st :=
            new_peer_connection open_socket nid (num_pieces (file_mgr st))),
        next_addr := Suc (next_addr st),
        connections := dict_set (connections st) nid (next_addr st)\<rparr>"

text \<open>What the receive loop of session \<open>a\<close> leaves unchanged outside that session.\<close>

definition others_untouched :: "nat \<Rightarrow> peer \<Rightarrow> peer \<Rightarrow> bool" where
  "others_untouched a st st' \<longleftrightarrow>
     connections st' = connections st \<and> running st' = running st \<and>
     exited st' = exited st \<and> server_socket st' = server_socket st \<and>
     (\<forall>b. b \<noteq> a \<longrightarrow> sock_closed (sock (store st' b)) = sock_closed (sock (store st b)))"

text \<open>The sessions of the registry that carry the optimistic mark.\<close>

definition optimistic_sessions :: "peer \<Rightarrow> nat list" where
  "optimistic_sessions st =
     filter (\<lambda>c. is_optimistic (store st c)) (dict_values (connections st))"

definition one_optimistic :: "peer \<Rightarrow> bool" where
  "one_optimistic st \<longleftrightarrow>
     (\<forall>c \<in> set (dict_values (connections st)). \<forall>c' \<in> set (dict_values (connections st)).
        is_optimistic (store st c) \<and> is_optimistic (store st c') \<longrightarrow> c = c')"

section \<open>Bitfield encoding\<close>

lemma length_fold_pack_bit: "length (fold (pack_bit bf) is bs) = length bs"
  by (induction "is" arbitrary: bs) (simp_all add: pack_bit_def)

lemma bit_fold_pack_bit:
  assumes "\<forall>i \<in> set is. i div 8 < length bs" and "j < length bs"
  shows "bit (fold (pack_bit bf) is bs ! j) b \<longleftrightarrow>
         bit (bs ! j) b \<or> (\<exists>i \<in> set is. bf ! i = 1 \<and> i div 8 = j \<and> 7 - i mod 8 = b)"
  using assms
proof (induction "is" arbitrary: bs)
  case Nil
  then show ?case by simp
next
  case (Cons i "is")
  let ?bs = "pack_bit bf i bs"
  have len: "length ?bs = length bs"
    by (simp add: pack_bit_def)
  have i8: "i div 8 < length bs"
    using Cons.prems(1) by simp
  have step: "bit (?bs ! j) b \<longleftrightarrow>
      bit (bs ! j) b \<or> (bf ! i = 1 \<and> i div 8 = j \<and> 7 - i mod 8 = b)"
  proof (cases "bf ! i = 1 \<and> i div 8 = j")
    case True
    have "7 - i mod 8 < 8" by arith
    then show ?thesis
      using True i8
      by (auto simp: pack_bit_def bit_or_iff bit_exp_iff)
  next
    case False
    then show ?thesis
      using Cons.prems(2) by (auto simp: pack_bit_def)
  qed
  have "bit (fold (pack_bit bf) is ?bs ! j) b \<longleftrightarrow>
        bit (?bs ! j) b \<or> (\<exists>i \<in> set is. bf ! i = 1 \<and> i div 8 = j \<and> 7 - i mod 8 = b)"
    using Cons.prems by (intro Cons.IH) (simp_all add: len)
  then show ?case
    using step by auto
qed

lemma length_fold_unpack_bit: "length (fold (unpack_bit d) is nb) = length nb"
  by (induction "is" arbitrary: nb) (simp_all add: unpack_bit_def)

lemma test_bit_byte: "(drop_bit n w AND 1 \<noteq> 0) = bit w n" for w :: byte
  by (simp add: bit_iff_and_drop_bit_eq_1 and_one_eq mod_2_eq_odd)

lemma nth_unpack_bit:
  "i < length nb \<Longrightarrow> unpack_bit d k nb ! i =
     (if i = k \<and> i div 8 < length d \<and> bit (d ! (i div 8)) (7 - i mod 8) then 1 else nb ! i)"
  by (auto simp: unpack_bit_def test_bit_byte nth_list_update)

lemma nth_fold_unpack_bit:
  assumes "i < length nb"
  shows "fold (unpack_bit d) is nb ! i =
         (if i \<in> set is \<and> i div 8 < length d \<and> bit (d ! (i div 8)) (7 - i mod 8)
          then 1 else nb ! i)"
  using assms
proof (induction "is" arbitrary: nb)
  case Nil
  then show ?case by simp
next
  case (Cons k ks)
  have "i < length (unpack_bit d k nb)"
    using Cons.prems by (simp add: unpack_bit_def)
  then show ?case
    using Cons.prems by (auto simp: Cons.IH nth_unpack_bit)
qed

lemma update_bitfield_from_bytes_nth:
  assumes "i < nat (num_pieces fm)"
  shows "update_bitfield_from_bytes fm d ! i =
         (if i div 8 < length d \<and> bit (d ! (i div 8)) (7 - i mod 8) then 1 else 0)"
  using assms by (simp add: update_bitfield_from_bytes_def nth_fold_unpack_bit)

lemma length_update_bitfield_from_bytes [simp]:
  "length (update_bitfield_from_bytes fm d) = nat (num_pieces fm)"
  by (simp add: update_bitfield_from_bytes_def length_fold_unpack_bit)

lemma idx_mod: "7 - i' mod 8 = 7 - i mod 8 \<Longrightarrow> i' mod 8 = (i::nat) mod 8"
proof -
  assume a: "7 - i' mod 8 = 7 - i mod 8"
  have "i' mod 8 < 8" "i mod 8 < 8" by simp_all
  with a show ?thesis by linarith
qed

lemma idx_unique: "i' div 8 = i div 8 \<Longrightarrow> 7 - i' mod 8 = 7 - i mod 8 \<Longrightarrow> i' = (i::nat)"
  using idx_mod [of i' i] by (metis div_mult_mod_eq)

lemma idx_of: "i div 8 = j \<Longrightarrow> 7 - i mod 8 = b \<Longrightarrow> i = 8 * j + (7 - b)" for i :: nat
proof -
  assume a: "i div 8 = j" "7 - i mod 8 = b"
  have "i mod 8 < 8" by simp
  with a(2) have "i mod 8 = 7 - b" by linarith
  moreover have "i = 8 * (i div 8) + i mod 8" by simp
  ultimately show ?thesis using a(1) by simp
qed

lemma idx_div: "b < 8 \<Longrightarrow> (8 * j + (7 - b)) div 8 = j" for j :: nat
  by simp

lemma idx_bit: "b < 8 \<Longrightarrow> 7 - (8 * j + (7 - b)) mod 8 = b" for j :: nat
proof -
  assume b: "b < 8"
  have "(8 * j + (7 - b)) mod 8 = (7 - b) mod 8"
    by (rule mod_mult_self4)
  also have "\<dots> = 7 - b"
    by (rule mod_less) arith
  finally show ?thesis
    using b by arith
qed

lemma ceil_div_8: "0 \<le> n \<Longrightarrow> nat (ceil_div n 8) = (nat n + 7) div 8"
proof -
  assume "0 \<le> n"
  then obtain m where n: "n = int m" by (metis nonneg_int_cases)
  have "- ((- int m) div 8) = int ((m + 7) div 8)"
    by (simp add: zdiv_int)
  then show ?thesis
    by (simp add: ceil_div_def n)
qed

lemma bit_get_bitfield_bytes:
  assumes len: "num_pieces fm = int (length (bitfield fm))"
  shows "\<exists>bs. get_bitfield_bytes fm = Return bs \<and>
           length bs = (length (bitfield fm) + 7) div 8 \<and>
           (\<forall>j < length bs. \<forall>b. bit (bs ! j) b \<longleftrightarrow>
              (\<exists>i < length (bitfield fm). bitfield fm ! i = 1 \<and> i div 8 = j \<and> 7 - i mod 8 = b))"
proof -
  let ?n = "length (bitfield fm)"
  let ?zs = "replicate ((?n + 7) div 8) (0 :: byte)"
  let ?bs = "fold (pack_bit (bitfield fm)) [0..<?n] ?zs"
  have nb: "nat (ceil_div (num_pieces fm) 8) = (?n + 7) div 8"
    using ceil_div_8 [of "num_pieces fm"] len by simp
  have "0 \<le> ceil_div (int ?n) 8"
    unfolding ceil_div_def by (simp add: zdiv_int)
  then have enc: "get_bitfield_bytes fm = Return ?bs"
    using len nb by (simp add: get_bitfield_bytes_def Let_def)
  have lbs: "length ?bs = (?n + 7) div 8"
    by (simp add: length_fold_pack_bit)
  have bits: "bit (?bs ! j) b \<longleftrightarrow>
      (\<exists>i < ?n. bitfield fm ! i = 1 \<and> i div 8 = j \<and> 7 - i mod 8 = b)"
    if "j < (?n + 7) div 8" for j b
  proof -
    have "\<forall>i \<in> set [0..<?n]. i div 8 < length ?zs"
      by auto
    moreover have "j < length ?zs"
      using that by simp
    ultimately have "bit (?bs ! j) b \<longleftrightarrow> bit (?zs ! j) b \<or>
        (\<exists>i \<in> set [0..<?n]. bitfield fm ! i = 1 \<and> i div 8 = j \<and> 7 - i mod 8 = b)"
      by (rule bit_fold_pack_bit)
    then show ?thesis
      using that by auto
  qed
  show ?thesis
    using enc lbs bits by auto
qed


lemma get_bitfield_bytes_Return:
  "num_pieces fm = int (length (bitfield fm)) \<Longrightarrow> \<exists>bs. get_bitfield_bytes fm = Return bs"
  using bit_get_bitfield_bytes by blast

lemma get_bitfield_bytes_length:
  "num_pieces fm = int (length (bitfield fm)) \<Longrightarrow> get_bitfield_bytes fm = Return bs \<Longrightarrow>
   length bs = (length (bitfield fm) + 7) div 8"
  using bit_get_bitfield_bytes [of fm] by simp

lemma get_bitfield_bytes_bit:
  "num_pieces fm = int (length (bitfield fm)) \<Longrightarrow> get_bitfield_bytes fm = Return bs \<Longrightarrow>
   j < length bs \<Longrightarrow>
   bit (bs ! j) b \<longleftrightarrow>
     (\<exists>i < length (bitfield fm). bitfield fm ! i = 1 \<and> i div 8 = j \<and> 7 - i mod 8 = b)"
  using bit_get_bitfield_bytes [of fm] by simp

lemma get_bitfield_bytes_bit_own:
  assumes "num_pieces fm = int (length (bitfield fm))" "get_bitfield_bytes fm = Return bs"
    and i: "i < length (bitfield fm)"
  shows "i div 8 < length bs" and "bit (bs ! (i div 8)) (7 - i mod 8) \<longleftrightarrow> bitfield fm ! i = 1"
proof -
  show j: "i div 8 < length bs"
    using get_bitfield_bytes_length [OF assms(1,2)] i by simp
  have "bit (bs ! (i div 8)) (7 - i mod 8) \<longleftrightarrow>
     (\<exists>i' < length (bitfield fm). bitfield fm ! i' = 1 \<and> i' div 8 = i div 8 \<and>
         7 - i' mod 8 = 7 - i mod 8)"
    by (rule get_bitfield_bytes_bit [OF assms(1,2) j])
  also have "\<dots> \<longleftrightarrow> bitfield fm ! i = 1"
  proof
    assume "\<exists>i' < length (bitfield fm). bitfield fm ! i' = 1 \<and> i' div 8 = i div 8 \<and>
         7 - i' mod 8 = 7 - i mod 8"
    then obtain i' where i': "bitfield fm ! i' = 1" "i' div 8 = i div 8" "7 - i' mod 8 = 7 - i mod 8"
      by blast
    have "i' = i"
      using i'(2,3) by (rule idx_unique)
    with i'(1) show "bitfield fm ! i = 1" by simp
  next
    assume "bitfield fm ! i = 1"
    then show "\<exists>i' < length (bitfield fm). bitfield fm ! i' = 1 \<and> i' div 8 = i div 8 \<and>
         7 - i' mod 8 = 7 - i mod 8"
      using i by blast
  qed
  finally show "bit (bs ! (i div 8)) (7 - i mod 8) \<longleftrightarrow> bitfield fm ! i = 1" .
qed

lemma get_bitfield_bytes_bit_pos:
  assumes "num_pieces fm = int (length (bitfield fm))" "get_bitfield_bytes fm = Return bs"
    and j: "j < length bs" and b: "b < 8"
  shows "bit (bs ! j) b \<longleftrightarrow>
     8 * j + (7 - b) < length (bitfield fm) \<and> bitfield fm ! (8 * j + (7 - b)) = 1"
proof -
  have "bit (bs ! j) b \<longleftrightarrow>
     (\<exists>i < length (bitfield fm). bitfield fm ! i = 1 \<and> i div 8 = j \<and> 7 - i mod 8 = b)"
    by (rule get_bitfield_bytes_bit [OF assms(1,2) j])
  also have "\<dots> \<longleftrightarrow>
     8 * j + (7 - b) < length (bitfield fm) \<and> bitfield fm ! (8 * j + (7 - b)) = 1"
  proof
    assume "\<exists>i < length (bitfield fm). bitfield fm ! i = 1 \<and> i div 8 = j \<and> 7 - i mod 8 = b"
    then obtain i where i: "i < length (bitfield fm)" "bitfield fm ! i = 1"
      "i div 8 = j" "7 - i mod 8 = b"
      by blast
    have "i = 8 * j + (7 - b)"
      using i(3,4) by (rule idx_of)
    with i(1,2) show "8 * j + (7 - b) < length (bitfield fm) \<and> bitfield fm ! (8 * j + (7 - b)) = 1"
      by simp
  next
    assume r: "8 * j + (7 - b) < length (bitfield fm) \<and> bitfield fm ! (8 * j + (7 - b)) = 1"
    have "(8 * j + (7 - b)) div 8 = j" "7 - (8 * j + (7 - b)) mod 8 = b"
      using b by (simp_all only: idx_div idx_bit)
    with r show "\<exists>i < length (bitfield fm). bitfield fm ! i = 1 \<and> i div 8 = j \<and> 7 - i mod 8 = b"
      by blast
  qed
  finally show ?thesis .
qed

subsection \<open>Claim C6\<close>

text \<open>
  C6: for a bitmap of length \<open>num_pieces\<close> with entries 0 and 1, encoding never raises
  and decoding the encoded bytes (by any store with the same \<open>num_pieces\<close>) gives the
  bitmap back; the encoding has \<open>\<lceil>num_pieces / 8\<rceil>\<close> bytes, and bit \<open>b\<close> of byte \<open>j\<close> is
  set exactly when piece \<open>8 j + (7 - b)\<close> exists and is held, so that piece \<open>i\<close> is bit
  \<open>7 - i mod 8\<close> of byte \<open>i div 8\<close> and the trailing bits are zero.
\<close>

theorem bitfield_roundtrip:
  assumes len: "num_pieces fm = int (length (bitfield fm))"
    and bin: "set (bitfield fm) \<subseteq> {0, 1}"
    and same: "num_pieces fm' = num_pieces fm"
  shows "\<exists>bs. get_bitfield_bytes fm = Return bs \<and>
           update_bitfield_from_bytes fm' bs = bitfield fm \<and>
           length bs = (length (bitfield fm) + 7) div 8 \<and>
           (\<forall>j < length bs. \<forall>b < 8. bit (bs ! j) b \<longleftrightarrow>
              8 * j + (7 - b) < length (bitfield fm) \<and> bitfield fm ! (8 * j + (7 - b)) = 1)"
proof -
  obtain bs where enc: "get_bitfield_bytes fm = Return bs"
    using get_bitfield_bytes_Return [OF len] by blast
  have dec: "update_bitfield_from_bytes fm' bs = bitfield fm"
  proof (rule nth_equalityI)
    show "length (update_bitfield_from_bytes fm' bs) = length (bitfield fm)"
      using len same by simp
  next
    fix i assume "i < length (update_bitfield_from_bytes fm' bs)"
    then have i: "i < length (bitfield fm)"
      using len same by simp
    have i': "i < nat (num_pieces fm')"
      using i len same by simp
    have "bitfield fm ! i \<in> {0, 1}"
      using bin i nth_mem by blast
    then show "update_bitfield_from_bytes fm' bs ! i = bitfield fm ! i"
      using get_bitfield_bytes_bit_own [OF len enc i]
      by (auto simp: update_bitfield_from_bytes_nth [OF i'])
  qed
  show ?thesis
    using enc dec get_bitfield_bytes_length [OF len enc] get_bitfield_bytes_bit_pos [OF len enc]
    by simp
qed

theorem bitfield_roundtrip_witness:
  "get_bitfield_bytes store10 = Return [128, 64] \<and>
   update_bitfield_from_bytes store10 [128, 64] = [1, 0, 0, 0, 0, 0, 0, 0, 0, 1]"
proof -
  have len: "num_pieces store10 = int (length (bitfield store10))"
    by (simp add: store10_def)
  have bin: "set (bitfield store10) \<subseteq> {0, 1}"
    by (simp add: store10_def)
  have enc: "get_bitfield_bytes store10 = Return [128, 64]"
    by code_simp
  obtain bs where "get_bitfield_bytes store10 = Return bs"
    and "update_bitfield_from_bytes store10 bs = bitfield store10"
    using bitfield_roundtrip [OF len bin refl] by blast
  with enc show ?thesis
    by (simp add: store10_def)
qed

section \<open>Frame lemmas for the message handlers\<close>

lemma bits_mono_refl [simp]: "bits_mono bs bs"
  by (simp add: bits_mono_def)

lemma bits_mono_trans: "bits_mono a b \<Longrightarrow> bits_mono b c \<Longrightarrow> bits_mono a c"
  by (simp add: bits_mono_def)

lemma bits_mono_update: "bits_mono bs (bs[i := 1])"
proof -
  have "bs[i := 1] ! j = 1" if "j < length bs" "bs ! j = 1" for j
    using that by (cases "j = i") simp_all
  then show ?thesis
    by (simp add: bits_mono_def)
qed

lemma fm_frame_refl [simp]: "fm_frame f f"
  by (simp add: fm_frame_def)

lemma fm_frame_trans: "fm_frame f g \<Longrightarrow> fm_frame g h \<Longrightarrow> fm_frame f h"
  unfolding fm_frame_def by (metis bits_mono_trans)

lemma conn_frame_refl [simp]: "conn_frame c c"
  by (simp add: conn_frame_def)

lemma conn_frame_trans: "conn_frame c d \<Longrightarrow> conn_frame d e \<Longrightarrow> conn_frame c e"
  by (simp add: conn_frame_def)

lemma peer_frame_refl [simp]: "peer_frame X st st"
  by (simp add: peer_frame_def)

lemma peer_frame_trans: "peer_frame X s t \<Longrightarrow> peer_frame X t u \<Longrightarrow> peer_frame X s u"
proof -
  assume a: "peer_frame X s t" "peer_frame X t u"
  have 1: "fm_frame (file_mgr s) (file_mgr u)"
    using a by (meson fm_frame_trans peer_frame_def)
  have 2: "conn_frame (store s b) (store u b)" for b
    using a by (meson conn_frame_trans peer_frame_def)
  have 3: "bits_mono (neighbor_bitfield (store s b)) (neighbor_bitfield (store u b))"
    if "b \<notin> X" for b
    using a that by (meson bits_mono_trans peer_frame_def)
  show ?thesis
    using a 1 2 3 by (simp add: peer_frame_def)
qed

lemma timer_frame_refl [simp]: "timer_frame st st"
  by (simp add: timer_frame_def)

lemma timer_frame_trans: "timer_frame s t \<Longrightarrow> timer_frame t u \<Longrightarrow> timer_frame s u"
  by (simp add: timer_frame_def)

lemma bits_ok_cong: "num_pieces (file_mgr st') = num_pieces (file_mgr st) \<Longrightarrow> bits_ok st' = bits_ok st"
  by (simp add: bits_ok_def fun_eq_iff)

lemma peer_frame_upd_conn:
  assumes "\<And>c. conn_frame c (f c)"
    and "\<And>c. bits_ok st (neighbor_bitfield c) \<Longrightarrow> bits_ok st (neighbor_bitfield (f c))"
    and "a \<in> X \<or> (\<forall>c. bits_mono (neighbor_bitfield c) (neighbor_bitfield (f c)))"
  shows "peer_frame X st (upd_conn a f st)"
  using assms by (auto simp: peer_frame_def upd_conn_def bits_ok_def)

lemma peer_frame_file_mgr:
  "fm_frame (file_mgr st) f \<Longrightarrow> peer_frame X st (st\<lparr>file_mgr := f\<rparr>)"
  by (simp add: peer_frame_def bits_ok_def fm_frame_def)

lemma send_message_frame:
  "send_message c t p = Return c' \<Longrightarrow>
   conn_frame c c' \<and> neighbor_bitfield c' = neighbor_bitfield c \<and>
   am_interested c' = am_interested c \<and> peer_choking c' = peer_choking c \<and>
   peer_interested c' = peer_interested c \<and>
   downloaded_bytes_interval c' = downloaded_bytes_interval c"
  by (auto simp: send_message_def sendall_def conn_frame_def Let_def
      split: outcome.splits if_splits)

lemma peer_frame_send_to: "peer_frame X st (fst (send_to st a t p))"
  by (auto simp: send_to_def peer_frame_def bits_ok_def dest: send_message_frame
      split: outcome.splits)

lemma peer_frame_and_then:
  assumes "peer_frame X st (fst m)" and "\<And>s. peer_frame X s (fst (f s))"
  shows "peer_frame X st (fst (and_then m f))"
proof (cases m)
  case (Pair s e)
  then show ?thesis
    using assms(1) assms(2) [of s]
    by (cases e) (auto simp: and_then_def intro: peer_frame_trans)
qed

lemma held_pieces_iff: "i \<in> held_pieces f \<longleftrightarrow> i < length (bitfield f) \<and> bitfield f ! i = 1"
  by (auto simp: held_pieces_def)

lemma binary_iff: "binary bs \<longleftrightarrow> (\<forall>i < length bs. bs ! i = 0 \<or> bs ! i = 1)"
  by (simp add: binary_def list_all_length)

lemma binary_update: "binary bs \<Longrightarrow> binary (bs[i := 1])"
  using set_update_subset_insert [of bs i 1]
  by (auto simp: binary_def list_all_iff)

lemma binary_replicate [simp]: "binary (replicate n 0)" "binary (replicate n 1)"
  by (simp_all add: binary_iff)

lemma fm_frame_request:
  assumes "idx \<notin> held_pieces f"
  shows "fm_frame f (f\<lparr>requested_pieces := insert idx (requested_pieces f)\<rparr>)"
  using assms by (auto simp: fm_frame_def held_pieces_iff)

lemma fm_frame_disk: "fm_frame f (f\<lparr>disk := d\<rparr>)"
  by (simp add: fm_frame_def held_pieces_def)

lemma fm_frame_write_piece: "fm_frame f (fst (write_piece f index data))"
proof (cases "\<exists>content. disk f = Some content \<and> \<not> int index * piece_size f < 0 \<and>
                index < length (bitfield f)")
  case True
  then obtain content where c: "disk f = Some content" "\<not> int index * piece_size f < 0"
    "index < length (bitfield f)"
    by blast
  have w: "fst (write_piece f index data) =
      f\<lparr>disk := Some (file_write content (nat (int index * piece_size f)) data),
        bitfield := (bitfield f)[index := 1],
        requested_pieces := requested_pieces f - {index}\<rparr>"
    using c by (simp add: write_piece_def Let_def)
  have dis: "(requested_pieces f - {index}) \<inter>
        held_pieces (f\<lparr>disk := Some (file_write content (nat (int index * piece_size f)) data),
          bitfield := (bitfield f)[index := 1],
          requested_pieces := requested_pieces f - {index}\<rparr>) = {}"
    if "requested_pieces f \<inter> held_pieces f = {}"
  proof -
    have "i \<notin> held_pieces (f\<lparr>disk := Some (file_write content (nat (int index * piece_size f)) data),
          bitfield := (bitfield f)[index := 1],
          requested_pieces := requested_pieces f - {index}\<rparr>)"
      if "i \<in> requested_pieces f" "i \<noteq> index" for i
    proof -
      have "i \<notin> held_pieces f"
        using \<open>requested_pieces f \<inter> held_pieces f = {}\<close> that(1) by blast
      then show ?thesis
        using that(2) by (simp add: held_pieces_iff)
    qed
    then show ?thesis
      by blast
  qed
  show ?thesis
    unfolding w fm_frame_def
    using dis by (simp add: binary_update bits_mono_update)
next
  case False
  then show ?thesis
    by (auto simp: write_piece_def Let_def fm_frame_disk split: option.splits)
qed

lemma available_pieces_sound:
  "available_pieces f nb is = Return av \<Longrightarrow> idx \<in> set av \<Longrightarrow>
   idx \<in> set is \<and> nb ! idx = 1 \<and> idx \<notin> held_pieces f \<and> idx \<notin> requested_pieces f \<and>
   idx < length (bitfield f)"
proof (induction "is" arbitrary: av)
  case Nil
  then show ?case by simp
next
  case (Cons i "is")
  then show ?case
    by (auto simp: has_piece_def held_pieces_iff split: if_splits outcome.splits)
qed

lemma peer_frame_check_interest: "peer_frame X st (fst (check_interest st a))"
proof -
  have u: "peer_frame X s (upd_conn a (\<lambda>c. c\<lparr>am_interested := False\<rparr>) s)" for s
    by (rule peer_frame_upd_conn) (simp_all add: conn_frame_def)
  show ?thesis
    unfolding check_interest_def Let_def
    by (auto split: outcome.splits intro!: peer_frame_and_then peer_frame_send_to u)
qed

lemma peer_frame_broadcast_have: "peer_frame X st (fst (broadcast_have st hp ps))"
proof (induction ps arbitrary: st)
  case Nil
  then show ?case by simp
next
  case (Cons p ps)
  show ?case
    unfolding broadcast_have.simps
    by (intro peer_frame_and_then peer_frame_send_to peer_frame_check_interest Cons.IH)
qed

lemma peer_frame_request_piece: "peer_frame X st (fst (request_piece st a r))"
proof (cases "available_pieces (file_mgr st) (neighbor_bitfield (store st a))
                [0..<length (neighbor_bitfield (store st a))]")
  case (Raise e)
  then show ?thesis
    by (simp add: request_piece_def)
next
  case (Return av)
  show ?thesis
  proof (cases "av = []")
    case True
    then show ?thesis
      using Return by (simp add: request_piece_def)
  next
    case False
    let ?idx = "av ! (r mod length av)"
    let ?st1 = "st\<lparr>file_mgr := (file_mgr st)\<lparr>requested_pieces :=
                   insert ?idx (requested_pieces (file_mgr st))\<rparr>\<rparr>"
    have "?idx \<in> set av"
      using False by simp
    then have "?idx \<notin> held_pieces (file_mgr st)"
      using available_pieces_sound [OF Return] by blast
    then have f1: "peer_frame X st ?st1"
      by (intro peer_frame_file_mgr fm_frame_request)
    have "peer_frame X st (fst (send_to ?st1 a MSG_REQUEST p))" for p
      using f1 peer_frame_send_to by (rule peer_frame_trans)
    then show ?thesis
      using Return False f1
      by (auto simp: request_piece_def Let_def split: outcome.splits)
  qed
qed

lemma binary_update_bitfield_from_bytes: "binary (update_bitfield_from_bytes f d)"
  by (simp add: binary_iff update_bitfield_from_bytes_nth)

lemma bits_ok_upd_conn [simp]: "bits_ok (upd_conn a f st) = bits_ok st"
  by (simp add: bits_ok_def upd_conn_def fun_eq_iff)

lemma peer_frame_flag:
  assumes "\<And>c. conn_frame c (f c)" "\<And>c. neighbor_bitfield (f c) = neighbor_bitfield c"
  shows "peer_frame X st (upd_conn a f st)"
  using assms by (intro peer_frame_upd_conn) simp_all

lemma peer_frame_handle_have: "peer_frame X st (fst (handle_have st a payload))"
proof -
  have u1: "peer_frame X s (upd_conn a (\<lambda>c. c\<lparr>neighbor_bitfield := (neighbor_bitfield c)[i := 1]\<rparr>) s)"
    for s i
    by (rule peer_frame_upd_conn)
       (simp_all add: conn_frame_def bits_ok_def binary_update bits_mono_update)
  have u2: "peer_frame X s (upd_conn a (\<lambda>c. c\<lparr>am_interested := True\<rparr>) s)" for s
    by (rule peer_frame_flag) (simp_all add: conn_frame_def)
  have u3: "peer_frame X st (fst (and_then (send_to
        (upd_conn a (\<lambda>c. c\<lparr>neighbor_bitfield := (neighbor_bitfield c)[i := 1]\<rparr>) st) a MSG_INTERESTED [])
        (\<lambda>st'. (upd_conn a (\<lambda>c. c\<lparr>am_interested := True\<rparr>) st', None))))" for i
    by (rule peer_frame_trans [OF u1 [of st i]]) (intro peer_frame_and_then peer_frame_send_to, simp add: u2)
  show ?thesis
    unfolding handle_have_def Let_def
    using u1 u3 by (auto split: outcome.splits)
qed

lemma peer_frame_handle_bitfield:
  assumes "a \<in> X"
  shows "peer_frame X st (fst (handle_bitfield st a payload))"
proof -
  let ?nb = "update_bitfield_from_bytes (file_mgr st) payload"
  let ?st1 = "upd_conn a (\<lambda>c. c\<lparr>neighbor_bitfield := ?nb\<rparr>) st"
  have u1: "peer_frame X st ?st1"
    using assms
    by (intro peer_frame_upd_conn)
       (simp_all add: conn_frame_def bits_ok_def binary_update_bitfield_from_bytes)
  have u2: "peer_frame X s (upd_conn a (\<lambda>c. c\<lparr>am_interested := v\<rparr>) s)" for s v
    by (rule peer_frame_flag) (simp_all add: conn_frame_def)
  have u3: "peer_frame X st (fst (and_then (send_to ?st1 a t [])
        (\<lambda>st'. (upd_conn a (\<lambda>c. c\<lparr>am_interested := v\<rparr>) st', None))))" for t v
    by (rule peer_frame_trans [OF u1]) (intro peer_frame_and_then peer_frame_send_to, simp add: u2)
  show ?thesis
    unfolding handle_bitfield_def Let_def
    using u1 u3 by (auto split: outcome.splits)
qed

lemma peer_frame_handle_request: "peer_frame X st (fst (handle_request st a payload))"
proof -
  have u2: "peer_frame X s (upd_conn a (\<lambda>c. c\<lparr>downloaded_bytes_interval := g c\<rparr>) s)" for s g
    by (rule peer_frame_flag) (simp_all add: conn_frame_def)
  have u3: "peer_frame X st (fst (and_then (send_to st a t p)
        (\<lambda>st'. (upd_conn a (\<lambda>c. c\<lparr>downloaded_bytes_interval := g c\<rparr>) st', None))))" for t p g
    by (intro peer_frame_and_then peer_frame_send_to) (simp add: u2)
  show ?thesis
    unfolding handle_request_def
    using u3 by (auto split: outcome.splits option.splits)
qed

lemma peer_frame_handle_piece: "peer_frame X st (fst (handle_piece st a payload r))"
proof (cases "unpack_u32 (take 4 payload)")
  case (Raise e)
  then show ?thesis
    by (simp add: handle_piece_def)
next
  case (Return piece_index)
  obtain f res where w: "write_piece (file_mgr st) piece_index (drop 4 payload) = (f, res)"
    by (cases "write_piece (file_mgr st) piece_index (drop 4 payload)")
  have "fm_frame (file_mgr st) f"
    using fm_frame_write_piece [of "file_mgr st" piece_index "drop 4 payload"] w by simp
  then have f0: "peer_frame X st (st\<lparr>file_mgr := f\<rparr>)"
    by (rule peer_frame_file_mgr)
  let ?st1 = "upd_conn a (\<lambda>c. c\<lparr>downloaded_bytes_interval :=
                 downloaded_bytes_interval c + int (length (drop 4 payload))\<rparr>) (st\<lparr>file_mgr := f\<rparr>)"
  have f1: "peer_frame X st ?st1"
    by (rule peer_frame_trans [OF f0], rule peer_frame_flag) (simp_all add: conn_frame_def)
  have rest: "peer_frame X s (fst (if \<not> peer_choking (store s a) then request_piece s a r else (s, None)))"
    for s
    by (simp add: peer_frame_request_piece)
  have f2: "peer_frame X st (fst (and_then (broadcast_have ?st1 hp (dict_values (connections ?st1)))
      (\<lambda>st2. if \<not> peer_choking (store st2 a) then request_piece st2 a r else (st2, None))))" for hp
    by (rule peer_frame_trans [OF f1])
       (intro peer_frame_and_then peer_frame_broadcast_have rest)
  show ?thesis
  proof (cases res)
    case (Raise e)
    then show ?thesis
      using Return w f0 by (simp add: handle_piece_def)
  next
    case (Return ok)
    show ?thesis
    proof (cases ok)
      case False
      then show ?thesis
        using \<open>unpack_u32 (take 4 payload) = Return piece_index\<close> Return w f0
        by (simp add: handle_piece_def)
    next
      case True
      then show ?thesis
        using \<open>unpack_u32 (take 4 payload) = Return piece_index\<close> Return w f1 f2
        by (simp add: handle_piece_def Let_def split: outcome.splits)
    qed
  qed
qed

lemma peer_frame_process_message:
  assumes "t = MSG_BITFIELD \<longrightarrow> a \<in> X"
  shows "peer_frame X st (fst (process_message st a t payload r))"
proof -
  have u: "peer_frame X s (upd_conn a (\<lambda>c. c\<lparr>peer_choking := v\<rparr>) s)"
    "peer_frame X s (upd_conn a (\<lambda>c. c\<lparr>peer_interested := v\<rparr>) s)" for s v
    by (rule peer_frame_flag; simp add: conn_frame_def)+
  have "peer_frame X st (fst (request_piece (upd_conn a (\<lambda>c. c\<lparr>peer_choking := False\<rparr>) st) a r))"
    by (rule peer_frame_trans [OF u(1) peer_frame_request_piece])
  then show ?thesis
    unfolding process_message_def
    using u assms
    by (simp add: peer_frame_handle_have peer_frame_handle_bitfield
        peer_frame_handle_request peer_frame_handle_piece)
qed

section \<open>Frame lemmas for the timers and the steps\<close>

lemma soft_frame_refl [simp]: "soft_frame st st"
  by (simp add: soft_frame_def)

lemma soft_frame_trans: "soft_frame s t \<Longrightarrow> soft_frame t u \<Longrightarrow> soft_frame s u"
  unfolding soft_frame_def by (metis fm_frame_trans)

lemma peer_frame_soft: "peer_frame X st st' \<Longrightarrow> soft_frame st st'"
  by (simp add: peer_frame_def soft_frame_def conn_frame_def)

lemma timer_frame_soft: "timer_frame st st' \<Longrightarrow> soft_frame st st'"
  by (simp add: timer_frame_def soft_frame_def bits_ok_def)

lemma soft_frame_sock:
  assumes "\<And>c. neighbor_id (f c) = neighbor_id c"
    "\<And>c. neighbor_bitfield (f c) = neighbor_bitfield c"
  shows "soft_frame st (upd_conn a f st)"
  using assms by (simp add: soft_frame_def upd_conn_def bits_ok_def)

lemma soft_frame_close: "soft_frame st (upd_conn a close st)"
  by (rule soft_frame_sock) (simp_all add: close_def)

lemma soft_frame_fold:
  assumes "\<And>c s. soft_frame s (g c s)"
  shows "soft_frame st (fold g cs st)"
proof (induction cs arbitrary: st)
  case Nil
  then show ?case by simp
next
  case (Cons c cs)
  show ?case
    using assms [of st c] Cons.IH [of "g c st"] by (auto intro: soft_frame_trans)
qed

lemma soft_frame_fields:
  "soft_frame st (st\<lparr>running := r\<rparr>)" "soft_frame st (st\<lparr>exited := e\<rparr>)"
  "soft_frame st (st\<lparr>server_socket := s\<rparr>)"
  by (simp_all add: soft_frame_def bits_ok_def)

lemma soft_frame_shutdown: "soft_frame st (shutdown st)"
proof -
  have "soft_frame (st\<lparr>running := False\<rparr>)
      (fold (\<lambda>c. upd_conn c close) (dict_values (connections st)) (st\<lparr>running := False\<rparr>))"
    by (rule soft_frame_fold) (rule soft_frame_close)
  then have "soft_frame st
      (fold (\<lambda>c. upd_conn c close) (dict_values (connections st)) (st\<lparr>running := False\<rparr>))"
    using soft_frame_fields(1) soft_frame_trans by blast
  then show ?thesis
    unfolding shutdown_def Let_def
    by (blast intro: soft_frame_trans soft_frame_fields)
qed

lemma soft_frame_termination_check: "soft_frame st (termination_check st)"
  by (simp add: termination_check_def soft_frame_shutdown)

lemma soft_frame_handler_step: "soft_frame st (handler_step st a t p r)"
proof -
  have "soft_frame st (fst (process_message st a t p r))"
    by (rule peer_frame_soft [where X = UNIV]) (simp add: peer_frame_process_message)
  then show ?thesis
    unfolding handler_step_def
    by (auto split: prod.splits option.splits intro: soft_frame_trans soft_frame_close)
qed

lemma stable_soft_frame:
  assumes "stable st" "soft_frame st st'"
  shows "stable st'"
  using assms
  by (simp add: stable_def soft_frame_def fm_frame_def bits_mono_def registry_ok_def)

lemma timer_frame_upd_conn:
  assumes "\<And>c. neighbor_id (f c) = neighbor_id c"
    "\<And>c. neighbor_bitfield (f c) = neighbor_bitfield c"
    "\<And>c. sock_closed (sock (f c)) = sock_closed (sock c)"
    "\<And>c. sock_broken (sock (f c)) = sock_broken (sock c)"
  shows "timer_frame st (upd_conn a f st)"
  using assms by (simp add: timer_frame_def upd_conn_def)

lemma timer_frame_send_to: "timer_frame st (fst (send_to st a t p))"
  by (auto simp: send_to_def timer_frame_def conn_frame_def dest!: send_message_frame
      split: outcome.splits)

lemma timer_frame_fold:
  assumes "\<And>c s. timer_frame s (g c s)"
  shows "timer_frame st (fold g cs st)"
proof (induction cs arbitrary: st)
  case Nil
  then show ?case by simp
next
  case (Cons c cs)
  show ?case
    using assms [of st c] Cons.IH [of "g c st"] by (auto intro: timer_frame_trans)
qed

lemma timer_frame_choke_step: "timer_frame st (choke_step preferred c st)"
proof -
  have u: "timer_frame s (upd_conn c (\<lambda>x. x\<lparr>am_choking := v\<rparr>) s)"
    "timer_frame s (upd_conn c (\<lambda>x. x\<lparr>downloaded_bytes_interval := 0\<rparr>) s)" for s v
    by (rule timer_frame_upd_conn; simp)+
  have s: "timer_frame st (fst (send_to (upd_conn c (\<lambda>x. x\<lparr>am_choking := v\<rparr>) st) c t []))" for v t
    by (rule timer_frame_trans [OF u(1) timer_frame_send_to])
  define st1 where "st1 =
        (if c \<in> set preferred then
           (if am_choking (store st c)
            then fst (send_to (upd_conn c (\<lambda>x. x\<lparr>am_choking := False\<rparr>) st) c MSG_UNCHOKE [])
            else st)
         else
           (if \<not> am_choking (store st c) \<and> \<not> is_optimistic (store st c)
            then fst (send_to (upd_conn c (\<lambda>x. x\<lparr>am_choking := True\<rparr>) st) c MSG_CHOKE [])
            else st))"
  have "timer_frame st st1"
    unfolding st1_def using s by simp
  then have "timer_frame st (upd_conn c (\<lambda>x. x\<lparr>downloaded_bytes_interval := 0\<rparr>) st1)"
    using u(2) by (rule timer_frame_trans)
  then show ?thesis
    by (simp add: choke_step_def st1_def)
qed

lemma timer_frame_choking_cycle: "timer_frame st (choking_cycle st perm)"
  unfolding choking_cycle_def Let_def
  by (auto intro: timer_frame_fold timer_frame_choke_step)

lemma timer_frame_clear_optimistic: "timer_frame st (clear_optimistic chosen c st)"
  unfolding clear_optimistic_def
  by (auto intro: timer_frame_upd_conn)

lemma timer_frame_optimistic_cycle: "timer_frame st (optimistic_cycle st r)"
proof (cases "optimistic_candidates st = []")
  case True
  then show ?thesis
    by (simp add: optimistic_cycle_def)
next
  case False
  define chosen where "chosen = optimistic_candidates st ! (r mod length (optimistic_candidates st))"
  define st1 where "st1 = upd_conn chosen (\<lambda>x. x\<lparr>is_optimistic := True\<rparr>) st"
  define st2 where "st2 = (if am_choking (store st1 chosen)
       then fst (send_to (upd_conn chosen (\<lambda>x. x\<lparr>am_choking := False\<rparr>) st1) chosen MSG_UNCHOKE [])
       else st1)"
  have f1: "timer_frame st st1"
    unfolding st1_def by (rule timer_frame_upd_conn) simp_all
  have "timer_frame st1 (upd_conn chosen (\<lambda>x. x\<lparr>am_choking := False\<rparr>) st1)"
    by (rule timer_frame_upd_conn) simp_all
  then have "timer_frame st1
      (fst (send_to (upd_conn chosen (\<lambda>x. x\<lparr>am_choking := False\<rparr>) st1) chosen MSG_UNCHOKE []))"
    using timer_frame_send_to by (rule timer_frame_trans)
  then have f2: "timer_frame st1 st2"
    unfolding st2_def by simp
  have f3: "timer_frame st2 (fold (clear_optimistic chosen) (dict_values (connections st2)) st2)"
    by (rule timer_frame_fold) (rule timer_frame_clear_optimistic)
  have "optimistic_cycle st r = fold (clear_optimistic chosen) (dict_values (connections st2)) st2"
    using False by (simp add: optimistic_cycle_def Let_def chosen_def st1_def st2_def)
  then show ?thesis
    using f1 f2 f3 by (metis timer_frame_trans)
qed

section \<open>The invariant of the reachable states\<close>

lemma dict_values_dict_set_subset:
  "set (dict_values (dict_set d k v)) \<subseteq> insert v (set (dict_values d))"
  by (induction d k v rule: dict_set.induct) (auto simp: dict_values_def)

lemma distinct_dict_values_dict_set:
  "distinct (dict_values d) \<Longrightarrow> v \<notin> set (dict_values d) \<Longrightarrow>
   distinct (dict_values (dict_set d k v))"
proof (induction d k v rule: dict_set.induct)
  case (1 k v)
  then show ?case by (simp add: dict_values_def)
next
  case (2 k' v' d k v)
  then show ?case
    using dict_values_dict_set_subset [of d k v]
    by (auto simp: dict_values_def)
qed

lemma length_dict_set: "length (dict_set d k v) = (if k \<in> fst ` set d then length d else Suc (length d))"
  by (induction d k v rule: dict_set.induct) auto

lemma register_eq:
  "register st nid =
     (case get_bitfield_bytes (file_mgr st) of
        Raise e \<Rightarrow> (registered st nid, Some e)
      | Return bf \<Rightarrow> send_to (registered st nid) (next_addr st) MSG_BITFIELD bf)"
  by (simp add: register_def registered_def Let_def split: outcome.split)

lemma stable_registered:
  assumes "stable st"
  shows "stable (registered st nid)"
proof -
  have r: "registry_ok st"
    using assms by (simp add: stable_def)
  then have fresh: "next_addr st \<notin> set (dict_values (connections st))"
    by (auto simp: registry_ok_def)
  have "distinct (dict_values (dict_set (connections st) nid (next_addr st)))"
    using r fresh by (simp add: registry_ok_def distinct_dict_values_dict_set)
  moreover have "\<forall>a \<in> set (dict_values (dict_set (connections st) nid (next_addr st))).
      a < Suc (next_addr st)"
    using r dict_values_dict_set_subset [of "connections st" nid "next_addr st"]
    by (fastforce simp: registry_ok_def)
  ultimately have "registry_ok (registered st nid)"
    by (simp add: registry_ok_def registered_def)
  then show ?thesis
    using assms
    by (auto simp: stable_def registered_def bits_ok_def new_peer_connection_def less_Suc_eq)
qed

lemma stable_register: "stable st \<Longrightarrow> stable (fst (register st nid))"
proof -
  assume "stable st"
  then have s: "stable (registered st nid)"
    by (rule stable_registered)
  have "soft_frame (registered st nid) (fst (send_to (registered st nid) a t p))" for a t p
    by (rule peer_frame_soft [where X = UNIV]) (rule peer_frame_send_to)
  then show ?thesis
    using s by (auto simp: register_eq split: outcome.splits intro: stable_soft_frame)
qed

lemma soft_frame_apply_event:
  assumes "\<forall>nid. ev \<noteq> Connect nid"
  shows "soft_frame st (apply_event st ev)"
proof (cases ev)
  case (Connect nid)
  then show ?thesis using assms by simp
next
  case ServerStart
  then show ?thesis by (simp add: apply_event_def soft_frame_fields)
next
  case (Frame a t p r)
  then show ?thesis by (simp add: apply_event_def soft_frame_handler_step)
next
  case (TransportFailure a)
  have "soft_frame st (upd_conn a break_transport st)"
    by (rule soft_frame_sock) (simp_all add: break_transport_def)
  then show ?thesis
    using TransportFailure by (simp add: apply_event_def)
next
  case (TransportError a)
  then show ?thesis by (simp add: apply_event_def soft_frame_close)
next
  case (ChokeTick perm)
  then show ?thesis
    by (simp add: apply_event_def timer_frame_soft timer_frame_choking_cycle)
next
  case (OptimisticTick r)
  then show ?thesis
    by (simp add: apply_event_def timer_frame_soft timer_frame_optimistic_cycle)
next
  case TerminationTick
  then show ?thesis by (simp add: apply_event_def soft_frame_termination_check)
qed

lemma stable_apply_event: "stable st \<Longrightarrow> stable (apply_event st ev)"
proof (cases "\<exists>nid. ev = Connect nid")
  case True
  assume "stable st"
  with True show ?thesis
    by (auto simp: apply_event_def stable_register)
next
  case False
  assume "stable st"
  then show ?thesis
    using False soft_frame_apply_event [of ev st] by (auto intro: stable_soft_frame)
qed

lemma run_snoc: "run st (evs @ [ev]) = apply_event (run st evs) ev"
  by (simp add: run_def)

lemma stable_run: "stable st \<Longrightarrow> stable (run st evs)"
  by (induction evs rule: rev_induct) (simp_all add: run_def stable_apply_event)

lemma stable_new_peer:
  assumes "new_peer k n has_file fsize psize present = Return st0"
  shows "stable st0"
proof -
  obtain f where f: "new_file_manager has_file fsize psize present = Return f"
    and st0: "st0 = \<lparr> preferred_k = k, n_peers = n, file_mgr = f,
                   store = (\<lambda>_. new_peer_connection open_socket 0 0), next_addr = 0,
                   connections = [], server_socket = None,
                   running = True, exited = False \<rparr>"
    using assms by (auto simp: new_peer_def split: outcome.splits)
  have "length (bitfield f) = nat (num_pieces f)" "binary (bitfield f)"
    "requested_pieces f = {}"
    using f by (auto simp: new_file_manager_def Let_def split: if_splits)
  then show ?thesis
    by (simp add: stable_def st0 registry_ok_def dict_values_def)
qed


lemma new_peer_example_seeder:
  "new_peer 1 4 True 30 10 (Some (replicate 30 7)) = Return example_seeder"
  by (simp add: example_seeder_def new_peer_def new_file_manager_def Let_def)

section \<open>Sending a frame\<close>

lemma pack_header_ok:
  "0 \<le> t \<Longrightarrow> t < 256 \<Longrightarrow> int (length p) < 2 ^ 32 - 1 \<Longrightarrow>
   pack_header (1 + int (length p)) t = Return (be32 (1 + int (length p)) @ [word_of_int t])"
  by (simp add: pack_header_def)

lemma send_message_eq:
  assumes "0 \<le> t" "t < 256" "int (length p) < 2 ^ 32 - 1"
  shows "send_message c t p =
    Return (if sock_up c
            then c\<lparr>sock := (sock c)\<lparr>sock_sent := sock_sent (sock c) @ [frame_of t p]\<rparr>\<rparr>
            else c)"
  using assms by (simp add: send_message_def pack_header_ok sendall_def frame_of_def sock_up_def)

lemma send_to_eq:
  assumes "0 \<le> t" "t < 256" "int (length p) < 2 ^ 32 - 1"
  shows "send_to st a t p =
    (upd_conn a (\<lambda>c. if sock_up c
            then c\<lparr>sock := (sock c)\<lparr>sock_sent := sock_sent (sock c) @ [frame_of t p]\<rparr>\<rparr>
            else c) st, None)"
  using assms by (simp add: send_to_def send_message_eq upd_conn_def)

subsection \<open>Claim C10\<close>

text \<open>
  C10, as the code has it: \<^verbatim>\<open>send_message\<close> packs the header outside its \<^verbatim>\<open>try\<close>, so it
  returns normally for a message type in 0..255 and a payload shorter than \<open>2\<^sup>3\<^sup>2 - 1\<close>
  bytes (every frame of the protocol table), whatever the socket does. Then only the
  socket of the session can differ: flags, bitmaps and byte counters are those of before,
  the registry is unchanged, and a send on a closed or failed socket leaves the whole
  state as it was; on a healthy socket exactly the frame is appended to what was sent.
\<close>

theorem send_message_contained:
  assumes "0 \<le> msg_type" "msg_type < 256" "int (length payload) < 2 ^ 32 - 1"
  shows "(\<exists>c'. send_message c msg_type payload = Return c' \<and>
            c' = c\<lparr>sock := sock c'\<rparr> \<and>
            sock_closed (sock c') = sock_closed (sock c) \<and>
            sock_broken (sock c') = sock_broken (sock c) \<and>
            sock_sent (sock c') =
              (if sock_up c then sock_sent (sock c) @ [frame_of msg_type payload]
               else sock_sent (sock c))) \<and>
         snd (send_to st a msg_type payload) = None \<and>
         connections (fst (send_to st a msg_type payload)) = connections st \<and>
         (\<not> sock_up (store st a) \<longrightarrow> fst (send_to st a msg_type payload) = st)"
  using assms by (simp add: send_message_eq send_to_eq upd_conn_def)

theorem send_message_contained_witness:
  "send_message (new_peer_connection (open_socket\<lparr>sock_broken := True\<rparr>) 1001 3) MSG_HAVE [0, 0, 0, 1]
     = Return (new_peer_connection (open_socket\<lparr>sock_broken := True\<rparr>) 1001 3) \<and>
   sock_sent (sock (case send_message (new_peer_connection open_socket 1001 3) MSG_HAVE [0, 0, 0, 1]
                    of Return c \<Rightarrow> c)) = [[0, 0, 0, 5, 4, 0, 0, 0, 1]]"
proof -
  let ?p = "[0, 0, 0, 1] :: byte list"
  let ?down = "new_peer_connection (open_socket\<lparr>sock_broken := True\<rparr>) 1001 3"
  let ?up = "new_peer_connection open_socket 1001 3"
  have h: "0 \<le> MSG_HAVE" "MSG_HAVE < 256" "int (length ?p) < 2 ^ 32 - 1"
    by simp_all
  have down: "\<not> sock_up ?down" and up: "sock_up ?up" and empty: "sock_sent (sock ?up) = []"
    and dsent: "sock_sent (sock ?down) = []"
    by (simp_all add: sock_up_def new_peer_connection_def open_socket_def)
  have fr: "frame_of MSG_HAVE ?p = [0, 0, 0, 5, 4, 0, 0, 0, 1]"
    by (simp add: frame_of_def be32_def)
  obtain c1 where c1: "send_message ?down MSG_HAVE ?p = Return c1" "c1 = ?down\<lparr>sock := sock c1\<rparr>"
      "sock_closed (sock c1) = sock_closed (sock ?down)"
      "sock_broken (sock c1) = sock_broken (sock ?down)"
      "sock_sent (sock c1) = sock_sent (sock ?down)"
    using send_message_contained [OF h, of ?down example_leecher 0] down by auto
  have "sock c1 = sock ?down"
    using c1(3,4,5) by simp
  then have a: "send_message ?down MSG_HAVE ?p = Return ?down"
    using c1(1,2) by simp
  obtain c2 where c2: "send_message ?up MSG_HAVE ?p = Return c2"
      "sock_sent (sock c2) = sock_sent (sock ?up) @ [frame_of MSG_HAVE ?p]"
    using send_message_contained [OF h, of ?up example_leecher 0] up by auto
  show ?thesis
    using a c2 fr empty by simp
qed

text \<open>
  The claim as stated fails: a \<^verbatim>\<open>PIECE\<close> payload of \<open>2\<^sup>3\<^sup>2 - 1\<close> bytes, or a type outside
  one byte, makes \<^verbatim>\<open>struct.pack\<close> raise before the \<^verbatim>\<open>try\<close> is entered.
\<close>

theorem send_message_raises_counterexample:
  "send_message (new_peer_connection open_socket 1001 3) MSG_PIECE (replicate (2 ^ 32 - 1) 0)
     = Raise StructError \<and>
   send_message (new_peer_connection open_socket 1001 3) 256 [] = Raise StructError"
  by (simp add: send_message_def pack_header_def)

section \<open>The HAVE handler\<close>

lemma handle_have_eq:
  assumes "unpack_u32 payload = Return i" "i < length (neighbor_bitfield (store st a))"
    "i < length (bitfield (file_mgr st))"
  shows "handle_have st a payload =
    (let st1 = upd_conn a (\<lambda>c. c\<lparr>neighbor_bitfield := (neighbor_bitfield c)[i := 1]\<rparr>) st
     in if bitfield (file_mgr st) ! i = 1 then (st1, None)
        else (upd_conn a (\<lambda>c. c\<lparr>am_interested := True\<rparr>)
               (fst (send_to st1 a MSG_INTERESTED [])), None))"
  using assms
  by (simp add: handle_have_def Let_def has_piece_def upd_conn_def and_then_def send_to_eq)

subsection \<open>Claim C7\<close>

text \<open>
  C7, as the code has it: a well-formed \<^verbatim>\<open>HAVE(i)\<close> for a piece index in range sets bit
  \<open>i\<close> of the neighbor bitmap; \<^verbatim>\<open>INTERESTED\<close> is sent and \<open>am_interested\<close> is set
  exactly when the local bit \<open>i\<close> is unset, whatever \<open>am_interested\<close> was (the frame
  reaches the wire when the socket is healthy); when the piece is already held, nothing is
  sent and \<open>am_interested\<close> keeps its value.
\<close>

theorem have_interest:
  assumes "unpack_u32 payload = Return i"
    and "i < length (neighbor_bitfield (store st a))"
    and "i < length (bitfield (file_mgr st))"
    and "st' = fst (process_message st a MSG_HAVE payload r)"
  shows "snd (process_message st a MSG_HAVE payload r) = None \<and>
         neighbor_bitfield (store st' a) = (neighbor_bitfield (store st a))[i := 1] \<and>
         (bitfield (file_mgr st) ! i \<noteq> 1 \<longrightarrow>
            am_interested (store st' a) \<and>
            sent_frames st' a =
              (if sock_up (store st a) then sent_frames st a @ [frame_of MSG_INTERESTED []]
               else sent_frames st a)) \<and>
         (bitfield (file_mgr st) ! i = 1 \<longrightarrow>
            am_interested (store st' a) = am_interested (store st a) \<and>
            sent_frames st' a = sent_frames st a)"
  using assms(4)
  by (simp add: process_message_def handle_have_eq [OF assms(1-3)] Let_def send_to_eq
      upd_conn_def sent_frames_def sock_up_def)

theorem have_interest_witness:
  "am_interested (store (fst (process_message (run example_leecher [Connect 1001]) 0 MSG_HAVE [0, 0, 0, 1] 0)) 0) \<and>
   sent_frames (fst (process_message (run example_leecher [Connect 1001]) 0 MSG_HAVE [0, 0, 0, 1] 0)) 0
     = [[0, 0, 0, 2, 5, 0], [0, 0, 0, 1, 2]]"
proof -
  let ?st = "run example_leecher [Connect 1001]"
  have h: "unpack_u32 [0, 0, 0, 1] = Return 1"
    "1 < length (neighbor_bitfield (store ?st 0))"
    "1 < length (bitfield (file_mgr ?st))"
    by code_simp+
  have n: "bitfield (file_mgr ?st) ! 1 \<noteq> 1" "sock_up (store ?st 0)"
    "sent_frames ?st 0 = [[0, 0, 0, 2, 5, 0]]" "frame_of MSG_INTERESTED [] = [0, 0, 0, 1, 2]"
    by code_simp+
  show ?thesis
    using have_interest [OF h refl, of 0] n by simp
qed

text \<open>
  The claim as stated fails: after a \<^verbatim>\<open>BITFIELD\<close> that made the peer interested, a
  \<^verbatim>\<open>HAVE\<close> for another missing piece sends \<^verbatim>\<open>INTERESTED\<close> a second time.
\<close>

theorem have_resends_interested_counterexample:
  "am_interested (store (run example_leecher [Connect 1001, Frame 0 MSG_BITFIELD [128] 0]) 0) \<and>
   sent_frames (run example_leecher [Connect 1001, Frame 0 MSG_BITFIELD [128] 0]) 0
     = [[0, 0, 0, 2, 5, 0], [0, 0, 0, 1, 2]] \<and>
   bitfield (file_mgr (run example_leecher [Connect 1001, Frame 0 MSG_BITFIELD [128] 0])) ! 1 = 0 \<and>
   sent_frames (run example_leecher
       [Connect 1001, Frame 0 MSG_BITFIELD [128] 0, Frame 0 MSG_HAVE [0, 0, 0, 1] 0]) 0
     = [[0, 0, 0, 2, 5, 0], [0, 0, 0, 1, 2], [0, 0, 0, 1, 2]]"
  by code_simp

section \<open>The last piece\<close>








subsection \<open>Claim C8\<close>




section \<open>Outstanding requests\<close>



subsection \<open>Claim C4\<close>



section \<open>The poll of the termination detector\<close>










lemma termination_check_eq:
  "termination_check st = (if should_exit st then shutdown st else st)"
  by (auto simp: termination_check_def should_exit_def)

lemma sock_closed_fold_close:
  "sock_closed (sock (store (fold (\<lambda>c. upd_conn c close) cs st) b)) \<longleftrightarrow>
     b \<in> set cs \<or> sock_closed (sock (store st b))"
  by (induction cs arbitrary: st) (auto simp: upd_conn_def close_def)

lemma frame_fold_close:
  "running (fold (\<lambda>c. upd_conn c close) cs st) = running st"
  "server_socket (fold (\<lambda>c. upd_conn c close) cs st) = server_socket st"
  "connections (fold (\<lambda>c. upd_conn c close) cs st) = connections st"
  by (induction cs arbitrary: st) (simp_all add: upd_conn_def)

lemma shutdown_effect:
  "exited (shutdown st)" "\<not> running (shutdown st)"
  "connections (shutdown st) = connections st"
  "sock_closed (sock (store (shutdown st) b)) \<longleftrightarrow>
     b \<in> set (dict_values (connections st)) \<or> sock_closed (sock (store st b))"
  "server_socket (shutdown st) = Some s \<Longrightarrow> sock_closed s"
  by (auto simp: shutdown_def Let_def sock_closed_fold_close frame_fold_close)

subsection \<open>Claim C5\<close>



section \<open>Monotone bitmaps\<close>

lemma file_mgr_register: "file_mgr (fst (register st nid)) = file_mgr st"
  by (simp add: register_eq registered_def send_to_def split: outcome.splits)

lemma fm_frame_apply_event: "fm_frame (file_mgr st) (file_mgr (apply_event st ev))"
proof (cases "\<exists>nid. ev = Connect nid")
  case True
  then show ?thesis
    by (auto simp: apply_event_def file_mgr_register)
next
  case False
  then show ?thesis
    using soft_frame_apply_event [of ev st] by (simp add: soft_frame_def)
qed

lemma fm_frame_run: "fm_frame (file_mgr st) (file_mgr (run st evs))"
proof (induction evs rule: rev_induct)
  case Nil
  then show ?case by (simp add: run_def)
next
  case (snoc ev evs)
  then show ?case
    using fm_frame_apply_event [of "run st evs" ev] by (auto simp: run_snoc intro: fm_frame_trans)
qed

lemma neighbor_bits_handler_step:
  assumes "t = MSG_BITFIELD \<longrightarrow> a' \<noteq> a"
  shows "bits_mono (neighbor_bitfield (store st a))
           (neighbor_bitfield (store (handler_step st a' t p r) a))"
proof -
  have "peer_frame (if t = MSG_BITFIELD then {a'} else {}) st (fst (process_message st a' t p r))"
    by (rule peer_frame_process_message) simp
  then have "bits_mono (neighbor_bitfield (store st a))
           (neighbor_bitfield (store (fst (process_message st a' t p r)) a))"
    using assms by (simp add: peer_frame_def split: if_splits)
  then show ?thesis
    by (auto simp: handler_step_def upd_conn_def close_def split: prod.splits option.splits)
qed

lemma neighbor_bits_shutdown:
  "neighbor_bitfield (store (shutdown st) a) = neighbor_bitfield (store st a)"
proof -
  have "neighbor_bitfield (store (fold (\<lambda>c. upd_conn c close) cs s) a) =
        neighbor_bitfield (store s a)" for cs s
    by (induction cs arbitrary: s) (simp_all add: upd_conn_def close_def)
  then show ?thesis
    by (simp add: shutdown_def Let_def)
qed

lemma neighbor_bits_register:
  assumes "a < next_addr st"
  shows "neighbor_bitfield (store (fst (register st nid)) a) = neighbor_bitfield (store st a)"
proof -
  have "neighbor_bitfield (store (fst (send_to s b t p)) a) = neighbor_bitfield (store s a)"
    for s b t p
    by (auto simp: send_to_def dest: send_message_frame split: outcome.splits)
  then show ?thesis
    using assms by (auto simp: register_eq registered_def split: outcome.splits)
qed

lemma neighbor_bits_apply_event:
  assumes "a < next_addr st" and "\<forall>p r. ev \<noteq> Frame a MSG_BITFIELD p r"
  shows "bits_mono (neighbor_bitfield (store st a))
           (neighbor_bitfield (store (apply_event st ev) a))"
proof (cases ev)
  case (Connect nid)
  then show ?thesis
    using assms(1) by (simp add: apply_event_def neighbor_bits_register)
next
  case ServerStart
  then show ?thesis by (simp add: apply_event_def)
next
  case (Frame a' t p r)
  then have "t = MSG_BITFIELD \<longrightarrow> a' \<noteq> a"
    using assms(2) by auto
  then show ?thesis
    using Frame by (simp add: apply_event_def neighbor_bits_handler_step)
next
  case (TransportFailure a')
  then show ?thesis by (simp add: apply_event_def upd_conn_def break_transport_def)
next
  case (TransportError a')
  then show ?thesis by (simp add: apply_event_def upd_conn_def close_def)
next
  case (ChokeTick perm)
  then show ?thesis
    using timer_frame_choking_cycle [of st perm] by (simp add: apply_event_def timer_frame_def)
next
  case (OptimisticTick r)
  then show ?thesis
    using timer_frame_optimistic_cycle [of st r] by (simp add: apply_event_def timer_frame_def)
next
  case TerminationTick
  then show ?thesis
    by (simp add: apply_event_def termination_check_eq neighbor_bits_shutdown)
qed

lemma next_addr_apply_event: "next_addr st \<le> next_addr (apply_event st ev)"
proof (cases "\<exists>nid. ev = Connect nid")
  case True
  have "next_addr (fst (send_to s b t p)) = next_addr s" for s b t p
    by (simp add: send_to_def split: outcome.splits)
  then show ?thesis
    using True by (auto simp: apply_event_def register_eq registered_def split: outcome.splits)
next
  case False
  then show ?thesis
    using soft_frame_apply_event [of ev st] by (simp add: soft_frame_def)
qed

lemma next_addr_run: "next_addr st \<le> next_addr (run st evs)"
proof (induction evs rule: rev_induct)
  case Nil
  then show ?case by (simp add: run_def)
next
  case (snoc ev evs)
  then show ?case
    using next_addr_apply_event [of "run st evs" ev] by (simp add: run_snoc)
qed

lemma neighbor_bits_run:
  assumes "a < next_addr st" and "\<forall>p r. Frame a MSG_BITFIELD p r \<notin> set evs"
  shows "bits_mono (neighbor_bitfield (store st a)) (neighbor_bitfield (store (run st evs) a))"
  using assms(2)
proof (induction evs rule: rev_induct)
  case Nil
  then show ?case by (simp add: run_def)
next
  case (snoc ev evs)
  have "a < next_addr (run st evs)"
    using assms(1) next_addr_run [of st evs] by simp
  moreover have "\<forall>p r. ev \<noteq> Frame a MSG_BITFIELD p r"
    using snoc.prems by auto
  ultimately have "bits_mono (neighbor_bitfield (store (run st evs) a))
           (neighbor_bitfield (store (apply_event (run st evs) ev) a))"
    by (rule neighbor_bits_apply_event)
  moreover have "bits_mono (neighbor_bitfield (store st a)) (neighbor_bitfield (store (run st evs) a))"
    using snoc by simp
  ultimately show ?case
    by (auto simp: run_snoc intro: bits_mono_trans)
qed

lemma bitfield_frame_replaces:
  "neighbor_bitfield (store (fst (process_message st a MSG_BITFIELD payload r)) a) =
     update_bitfield_from_bytes (file_mgr st) payload"
proof -
  let ?nb = "update_bitfield_from_bytes (file_mgr st) payload"
  let ?st1 = "upd_conn a (\<lambda>c. c\<lparr>neighbor_bitfield := ?nb\<rparr>) st"
  have s: "neighbor_bitfield (store (fst (send_to s a t p)) a) = neighbor_bitfield (store s a)"
    for s t p
    by (auto simp: send_to_def dest: send_message_frame split: outcome.splits)
  have "neighbor_bitfield (store (fst (and_then (send_to ?st1 a t [])
        (\<lambda>st'. (upd_conn a (\<lambda>c. c\<lparr>am_interested := v\<rparr>) st', None)))) a) = ?nb" for t v
    using s [of ?st1 t "[]"]
    by (cases "send_to ?st1 a t []") (auto simp: and_then_def upd_conn_def split: option.splits)
  then show ?thesis
    by (auto simp: process_message_def handle_bitfield_def Let_def upd_conn_def
        split: outcome.splits)
qed

subsection \<open>Claim C3\<close>

text \<open>
  C3, as the code has it. Over any run of events, a bit of the local bitmap that is 1
  stays 1. A bit of the neighbor bitmap of an existing session that is 1 stays 1 as long
  as no \<^verbatim>\<open>BITFIELD\<close> frame is processed for that session (piece writes, \<^verbatim>\<open>HAVE\<close> frames,
  the timers, registrations and the poll keep it). A \<^verbatim>\<open>BITFIELD\<close> frame replaces the
  neighbor bitmap by the decoded payload, so a bit survives it only when the payload
  carries it.
\<close>

theorem set_bits_kept:
  "(\<forall>i < length (bitfield (file_mgr st)).
      bitfield (file_mgr st) ! i = 1 \<longrightarrow> bitfield (file_mgr (run st evs)) ! i = 1) \<and>
   (a < next_addr st \<and> (\<forall>p r. Frame a MSG_BITFIELD p r \<notin> set evs) \<longrightarrow>
      (\<forall>i < length (neighbor_bitfield (store st a)).
         neighbor_bitfield (store st a) ! i = 1 \<longrightarrow>
         neighbor_bitfield (store (run st evs) a) ! i = 1)) \<and>
   neighbor_bitfield (store (fst (process_message st a MSG_BITFIELD payload r)) a) =
     update_bitfield_from_bytes (file_mgr st) payload"
  using fm_frame_run [of st evs] neighbor_bits_run [of a st evs] bitfield_frame_replaces [of st a payload r]
  by (simp add: fm_frame_def bits_mono_def)

theorem set_bits_kept_witness:
  "neighbor_bitfield (store (run example_leecher [Connect 1001, Frame 0 MSG_HAVE [0, 0, 0, 1] 0]) 0) ! 1 = 1 \<and>
   neighbor_bitfield (store (run example_leecher
      [Connect 1001, Frame 0 MSG_HAVE [0, 0, 0, 1] 0, Frame 0 MSG_HAVE [0, 0, 0, 2] 0,
       Frame 0 MSG_UNCHOKE [] 0, ChokeTick [], OptimisticTick 0]) 0) ! 1 = 1"
proof -
  let ?st = "run example_leecher [Connect 1001, Frame 0 MSG_HAVE [0, 0, 0, 1] 0]"
  let ?evs = "[Frame 0 MSG_HAVE [0, 0, 0, 2] 0, Frame 0 MSG_UNCHOKE [] 0, ChokeTick [], OptimisticTick 0]"
  have h: "0 < next_addr ?st" "1 < length (neighbor_bitfield (store ?st 0))"
    "neighbor_bitfield (store ?st 0) ! 1 = 1"
    by code_simp+
  have n: "\<forall>p r. Frame 0 MSG_BITFIELD p r \<notin> set ?evs"
    by simp
  have "neighbor_bitfield (store (run ?st ?evs) 0) ! 1 = 1"
    using set_bits_kept [of ?st ?evs 0] h n by blast
  moreover have "run ?st ?evs = run example_leecher
      [Connect 1001, Frame 0 MSG_HAVE [0, 0, 0, 1] 0, Frame 0 MSG_HAVE [0, 0, 0, 2] 0,
       Frame 0 MSG_UNCHOKE [] 0, ChokeTick [], OptimisticTick 0]"
    by (simp add: run_def)
  ultimately show ?thesis
    using h(3) by simp
qed

text \<open>
  The claim as stated fails for \<^verbatim>\<open>BITFIELD\<close> processing: a \<^verbatim>\<open>HAVE(1)\<close> sets bit 1 of the
  neighbor bitmap, and a \<^verbatim>\<open>BITFIELD\<close> that arrives afterwards without piece 1 clears it.
\<close>

theorem bitfield_clears_bit_counterexample:
  "neighbor_bitfield (store (run example_leecher [Connect 1001, Frame 0 MSG_HAVE [0, 0, 0, 1] 0]) 0) ! 1 = 1 \<and>
   neighbor_bitfield (store (run example_leecher
      [Connect 1001, Frame 0 MSG_HAVE [0, 0, 0, 1] 0, Frame 0 MSG_BITFIELD [128] 0]) 0) ! 1 = 0"
  by code_simp

section \<open>The end of a session\<close>

lemma others_untouched_refl [simp]: "others_untouched a st st"
  by (simp add: others_untouched_def)

lemma others_untouched_trans:
  "others_untouched a s t \<Longrightarrow> others_untouched a t u \<Longrightarrow> others_untouched a s u"
  by (simp add: others_untouched_def)

lemma others_untouched_close: "others_untouched a st (upd_conn a close st)"
  by (simp add: others_untouched_def upd_conn_def)

lemma others_untouched_process_message:
  "others_untouched a st (fst (process_message st a' t p r))"
  using peer_frame_process_message [of t a' UNIV st p r]
  by (simp add: others_untouched_def peer_frame_def conn_frame_def)

lemma closed_after_close: "sock_closed (sock (store (upd_conn a close st) a))"
  by (simp add: upd_conn_def close_def)

lemma message_handler_closes:
  "sock_closed (sock (store (message_handler st a inp rs) a)) \<and>
   others_untouched a st (message_handler st a inp rs)"
proof (induction st a inp rs rule: message_handler.induct)
  case (1 st a inp rs)
  note c = closed_after_close others_untouched_close
  show ?case
  proof (cases "running st")
    case False
    then have "message_handler st a inp rs = upd_conn a close st"
      by (subst message_handler.simps) simp
    then show ?thesis
      by (simp add: c)
  next
    case True
    show ?thesis
    proof (cases "read_n_bytes (sock (store st a)) inp 4")
      case (Raise e)
      then have "message_handler st a inp rs = upd_conn a close st"
        using True by (subst message_handler.simps) simp
      then show ?thesis
        by (simp add: c)
    next
      case lb: (Return length_bytes)
      show ?thesis
      proof (cases "unpack_u32 length_bytes")
        case (Raise e)
        then have "message_handler st a inp rs = upd_conn a close st"
          using True lb by (subst message_handler.simps) simp
        then show ?thesis
          by (simp add: c)
      next
        case ml: (Return msg_len)
        show ?thesis
        proof (cases "msg_len > 0")
          case False
          have "sock_closed (sock (store (message_handler st a (drop 4 inp) rs) a)) \<and>
                others_untouched a st (message_handler st a (drop 4 inp) rs)"
            using "1.IH"(2) True lb ml False by simp
          moreover have "message_handler st a inp rs = message_handler st a (drop 4 inp) rs"
            using True lb ml False by (subst message_handler.simps) simp
          ultimately show ?thesis
            by simp
        next
          case pos: True
          show ?thesis
          proof (cases "read_n_bytes (sock (store st a)) (drop 4 inp) msg_len")
            case (Raise e)
            then have "message_handler st a inp rs = upd_conn a close st"
              using True lb ml pos by (subst message_handler.simps) simp
            then show ?thesis
              by (simp add: c)
          next
            case mb: (Return msg_body)
            obtain st' err where pm:
              "process_message st a (uint (hd msg_body)) (tl msg_body) (rs 0) = (st', err)"
              by (cases "process_message st a (uint (hd msg_body)) (tl msg_body) (rs 0)")
            have o: "others_untouched a st st'"
              using others_untouched_process_message [of a st a "uint (hd msg_body)" "tl msg_body" "rs 0"] pm
              by simp
            show ?thesis
            proof (cases err)
              case (Some e)
              have "message_handler st a inp rs = upd_conn a close st'"
                using True lb ml pos mb pm Some by (subst message_handler.simps) simp
              then show ?thesis
                using o c by (auto intro: others_untouched_trans)
            next
              case None
              have eq: "message_handler st a inp rs =
                    message_handler st' a (drop (4 + msg_len) inp) (\<lambda>i. rs (Suc i))"
                using True lb ml pos mb pm None by (subst message_handler.simps) simp
              have "sock_closed (sock (store (message_handler st' a (drop (4 + msg_len) inp) (\<lambda>i. rs (Suc i))) a)) \<and>
                    others_untouched a st' (message_handler st' a (drop (4 + msg_len) inp) (\<lambda>i. rs (Suc i)))"
                using "1.IH"(1) True lb ml pos mb pm [symmetric] None by simp
              then show ?thesis
                using o eq by (auto intro: others_untouched_trans)
            qed
          qed
        qed
      qed
    qed
  qed
qed

subsection \<open>Claim C9\<close>

text \<open>
  C9, as the code has it. Whatever the transport of a session delivers before it ends or
  fails, the receive loop ends by closing that session, and only that: the registry is
  the one of before (the entry of the neighbor is still there), \<open>running\<close>, the exit
  flag and the listener are unchanged, and no other session is closed.
\<close>

theorem transport_error_closes_session:
  "st' = message_handler st a inp rs \<Longrightarrow>
   sock_closed (sock (store st' a)) \<and>
   connections st' = connections st \<and>
   running st' = running st \<and> exited st' = exited st \<and>
   server_socket st' = server_socket st \<and>
   (\<forall>b. b \<noteq> a \<longrightarrow> sock_closed (sock (store st' b)) = sock_closed (sock (store st b)))"
  using message_handler_closes [of st a inp rs] by (simp add: others_untouched_def)

theorem transport_error_closes_session_witness:
  "sock_closed (sock (store (message_handler (run example_leecher [ServerStart, Connect 1001, Connect 1002])
       0 [0, 0, 0, 1, 2, 0, 0] (\<lambda>_. 0)) 0)) \<and>
   \<not> sock_closed (sock (store (message_handler (run example_leecher [ServerStart, Connect 1001, Connect 1002])
       0 [0, 0, 0, 1, 2, 0, 0] (\<lambda>_. 0)) 1)) \<and>
   running (message_handler (run example_leecher [ServerStart, Connect 1001, Connect 1002])
       0 [0, 0, 0, 1, 2, 0, 0] (\<lambda>_. 0))"
proof -
  let ?st = "run example_leecher [ServerStart, Connect 1001, Connect 1002]"
  have "\<not> sock_closed (sock (store ?st 1))" "running ?st" "(1::nat) \<noteq> 0"
    by code_simp+
  then show ?thesis
    using transport_error_closes_session [OF refl, of ?st 0 "[0, 0, 0, 1, 2, 0, 0]" "\<lambda>_. 0"]
    by simp
qed

text \<open>
  The claim as stated fails: after the transport of session 0 has ended inside a frame
  header, the session is closed and the registry still maps neighbor 1001 to it.
\<close>

theorem registry_keeps_closed_session_counterexample:
  "sock_closed (sock (store (message_handler (run example_leecher [ServerStart, Connect 1001, Connect 1002])
       0 [0, 0] (\<lambda>_. 0)) 0)) \<and>
   connections (message_handler (run example_leecher [ServerStart, Connect 1001, Connect 1002])
       0 [0, 0] (\<lambda>_. 0)) = [(1001, 0), (1002, 1)]"
  by code_simp

section \<open>The number of unchoked sessions\<close>

lemma send_to_flags:
  "am_choking (store (fst (send_to st a t p)) b) = am_choking (store st b)"
  "is_optimistic (store (fst (send_to st a t p)) b) = is_optimistic (store st b)"
  "connections (fst (send_to st a t p)) = connections st"
  using peer_frame_send_to [of UNIV st a t p]
  by (simp_all add: peer_frame_def conn_frame_def)

lemma choke_step_flags:
  "am_choking (store (choke_step P c st) b) =
     (if b = c then c \<notin> set P \<and> (am_choking (store st c) \<or> \<not> is_optimistic (store st c))
      else am_choking (store st b))"
  "is_optimistic (store (choke_step P c st) b) = is_optimistic (store st b)"
  by (auto simp: choke_step_def Let_def send_to_flags upd_conn_def)

lemma fold_choke_step_optimistic:
  "is_optimistic (store (fold (choke_step P) cs st) b) = is_optimistic (store st b)"
  by (induction cs arbitrary: st) (simp_all add: choke_step_flags)

lemma fold_choke_step_choking:
  assumes "distinct cs"
  shows "am_choking (store (fold (choke_step P) cs st) b) =
     (if b \<in> set cs then b \<notin> set P \<and> (am_choking (store st b) \<or> \<not> is_optimistic (store st b))
      else am_choking (store st b))"
  using assms
proof (induction cs arbitrary: st)
  case Nil
  then show ?case by simp
next
  case (Cons c cs)
  then show ?case
    by (auto simp: choke_step_flags)
qed

lemma length_filter_disj:
  "length (filter (\<lambda>x. P x \<or> Q x) xs) \<le> length (filter P xs) + length (filter Q xs)"
  by (induction xs) auto

lemma length_filter_member:
  assumes "distinct xs"
  shows "length (filter (\<lambda>x. x \<in> set ys) xs) \<le> length ys"
proof -
  have "length (filter (\<lambda>x. x \<in> set ys) xs) = card (set (filter (\<lambda>x. x \<in> set ys) xs))"
    using assms by (intro distinct_card [symmetric] distinct_filter)
  also have "\<dots> \<le> card (set ys)"
    by (rule card_mono) auto
  also have "\<dots> \<le> length ys"
    by (rule card_length)
  finally show ?thesis .
qed

lemma length_filter_unique:
  assumes "distinct xs" "\<forall>x \<in> set xs. \<forall>y \<in> set xs. P x \<and> P y \<longrightarrow> x = y"
  shows "length (filter P xs) \<le> 1"
proof -
  have "length (filter P xs) = card (set (filter P xs))"
    using assms(1) by (intro distinct_card [symmetric] distinct_filter)
  also have "\<dots> \<le> Suc 0"
    using assms(2) by (subst card_le_Suc0_iff_eq) auto
  finally show ?thesis by simp
qed

lemma length_py_take: "0 \<le> k \<Longrightarrow> length (py_take k xs) \<le> nat k"
  by (simp add: py_take_def)

lemma choking_cycle_bound:
  assumes d: "distinct (dict_values (connections st))"
    and k: "0 \<le> preferred_k st" and i: "interested_snapshot st \<noteq> []"
  shows "unchoked_count (choking_cycle st perm) \<le>
           nat (preferred_k st) + length (optimistic_sessions st)"
proof -
  let ?reg = "dict_values (connections st)"
  let ?P = "select_preferred st perm (interested_snapshot st)"
  let ?st' = "fold (choke_step ?P) ?reg st"
  have c: "choking_cycle st perm = ?st'"
    using i by (simp add: choking_cycle_def Let_def)
  have reg: "connections ?st' = connections st"
    using timer_frame_choking_cycle [of st perm] c by (simp add: timer_frame_def)
  have "filter (\<lambda>b. \<not> am_choking (store ?st' b)) ?reg =
        filter (\<lambda>b. b \<in> set ?P \<or> (\<not> am_choking (store st b) \<and> is_optimistic (store st b))) ?reg"
    by (rule filter_cong) (auto simp: fold_choke_step_choking [OF d])
  then have "unchoked_count ?st' =
      length (filter (\<lambda>b. b \<in> set ?P \<or> (\<not> am_choking (store st b) \<and> is_optimistic (store st b))) ?reg)"
    by (simp add: unchoked_count_def reg)
  also have "\<dots> \<le> length (filter (\<lambda>b. b \<in> set ?P) ?reg) +
      length (filter (\<lambda>b. \<not> am_choking (store st b) \<and> is_optimistic (store st b)) ?reg)"
    by (rule length_filter_disj)
  also have "\<dots> \<le> length ?P + length (filter (\<lambda>b. is_optimistic (store st b)) ?reg)"
  proof (rule add_mono)
    show "length (filter (\<lambda>b. b \<in> set ?P) ?reg) \<le> length ?P"
      by (rule length_filter_member [OF d])
    have "length (filter (\<lambda>b. \<not> am_choking (store st b) \<and> is_optimistic (store st b)) ?reg)
        = length (filter (\<lambda>b. \<not> am_choking (store st b)) (filter (\<lambda>b. is_optimistic (store st b)) ?reg))"
      by (simp add: conj_commute)
    also have "\<dots> \<le> length (filter (\<lambda>b. is_optimistic (store st b)) ?reg)"
      by (rule length_filter_le)
    finally show "length (filter (\<lambda>b. \<not> am_choking (store st b) \<and> is_optimistic (store st b)) ?reg)
        \<le> length (filter (\<lambda>b. is_optimistic (store st b)) ?reg)" .
  qed
  also have "length ?P \<le> nat (preferred_k st)"
    using k by (simp add: select_preferred_def length_py_take)
  finally show ?thesis
    by (simp add: c optimistic_sessions_def)
qed

lemma fold_clear_optimistic_flags:
  "am_choking (store (fold (clear_optimistic ch) cs st) b) = am_choking (store st b)"
  "is_optimistic (store (fold (clear_optimistic ch) cs st) b) =
     (if b \<in> set cs \<and> b \<noteq> ch then False else is_optimistic (store st b))"
  by (induction cs arbitrary: st) (auto simp: clear_optimistic_def upd_conn_def)

lemma optimistic_cycle_flags:
  assumes "optimistic_candidates st \<noteq> []"
    and "ch = optimistic_candidates st ! (r mod length (optimistic_candidates st))"
  shows "am_choking (store (optimistic_cycle st r) b) = (am_choking (store st b) \<and> b \<noteq> ch)"
    and "is_optimistic (store (optimistic_cycle st r) b) =
     (if b = ch then True
      else if b \<in> set (dict_values (connections st)) then False
      else is_optimistic (store st b))"
    and "ch \<in> set (dict_values (connections st))"
proof -
  define st1 where "st1 = upd_conn ch (\<lambda>x. x\<lparr>is_optimistic := True\<rparr>) st"
  define st2 where "st2 = (if am_choking (store st1 ch)
       then fst (send_to (upd_conn ch (\<lambda>x. x\<lparr>am_choking := False\<rparr>) st1) ch MSG_UNCHOKE [])
       else st1)"
  have eq: "optimistic_cycle st r = fold (clear_optimistic ch) (dict_values (connections st2)) st2"
    using assms by (simp add: optimistic_cycle_def Let_def st1_def st2_def)
  have reg: "connections st2 = connections st"
    by (simp add: st2_def st1_def send_to_flags upd_conn_def)
  have a2: "am_choking (store st2 x) = (am_choking (store st x) \<and> x \<noteq> ch)" for x
    by (auto simp: st2_def st1_def send_to_flags upd_conn_def)
  have o2: "is_optimistic (store st2 x) = (x = ch \<or> is_optimistic (store st x))" for x
    by (auto simp: st2_def st1_def send_to_flags upd_conn_def)
  show "am_choking (store (optimistic_cycle st r) b) = (am_choking (store st b) \<and> b \<noteq> ch)"
    by (simp add: eq fold_clear_optimistic_flags a2)
  show "is_optimistic (store (optimistic_cycle st r) b) =
     (if b = ch then True
      else if b \<in> set (dict_values (connections st)) then False
      else is_optimistic (store st b))"
    by (simp add: eq fold_clear_optimistic_flags o2 reg)
  have "ch \<in> set (optimistic_candidates st)"
    using assms by simp
  then show "ch \<in> set (dict_values (connections st))"
    by (simp add: optimistic_candidates_def)
qed

lemma length_filter_insert:
  assumes "distinct xs"
  shows "length (filter (\<lambda>x. P x \<or> x = c) xs) \<le> length (filter P xs) + 1"
proof -
  have "length (filter (\<lambda>x. x = c) xs) \<le> 1"
    using assms by (intro length_filter_unique) auto
  then show ?thesis
    using length_filter_disj [of P "\<lambda>x. x = c" xs] by simp
qed

lemma optimistic_cycle_bound:
  assumes d: "distinct (dict_values (connections st))"
  shows "unchoked_count (optimistic_cycle st r) \<le> unchoked_count st + 1"
proof (cases "optimistic_candidates st = []")
  case True
  then show ?thesis
    by (simp add: optimistic_cycle_def)
next
  case False
  define ch where "ch = optimistic_candidates st ! (r mod length (optimistic_candidates st))"
  have reg: "connections (optimistic_cycle st r) = connections st"
    using timer_frame_optimistic_cycle [of st r] by (simp add: timer_frame_def)
  have "filter (\<lambda>b. \<not> am_choking (store (optimistic_cycle st r) b)) (dict_values (connections st)) =
        filter (\<lambda>b. \<not> am_choking (store st b) \<or> b = ch) (dict_values (connections st))"
    by (rule filter_cong) (auto simp: optimistic_cycle_flags(1) [OF False ch_def])
  then show ?thesis
    using length_filter_insert [OF d, of "\<lambda>b. \<not> am_choking (store st b)" ch]
    by (simp add: unchoked_count_def reg)
qed

lemma one_optimistic_same:
  assumes "one_optimistic st" "connections st' = connections st"
    "\<And>b. is_optimistic (store st' b) = is_optimistic (store st b)"
  shows "one_optimistic st'"
  using assms by (simp add: one_optimistic_def)

lemma one_optimistic_handler_step: "one_optimistic st \<Longrightarrow> one_optimistic (handler_step st a t p r)"
proof (rule one_optimistic_same)
  have f: "peer_frame UNIV st (fst (process_message st a t p r))"
    by (rule peer_frame_process_message) simp
  show "connections (handler_step st a t p r) = connections st"
    using f by (auto simp: handler_step_def peer_frame_def upd_conn_def
        split: prod.splits option.splits)
  show "is_optimistic (store (handler_step st a t p r) b) = is_optimistic (store st b)" for b
    using f by (auto simp: handler_step_def peer_frame_def conn_frame_def upd_conn_def close_def
        split: prod.splits option.splits)
qed

lemma one_optimistic_shutdown: "one_optimistic st \<Longrightarrow> one_optimistic (shutdown st)"
proof (rule one_optimistic_same)
  show "connections (shutdown st) = connections st"
    by (rule shutdown_effect)
  have "is_optimistic (store (fold (\<lambda>c. upd_conn c close) cs s) b) = is_optimistic (store s b)"
    for cs s b
    by (induction cs arbitrary: s) (simp_all add: upd_conn_def close_def)
  then show "is_optimistic (store (shutdown st) b) = is_optimistic (store st b)" for b
    by (simp add: shutdown_def Let_def)
qed

lemma one_optimistic_choking_cycle: "one_optimistic st \<Longrightarrow> one_optimistic (choking_cycle st perm)"
proof (rule one_optimistic_same)
  show "connections (choking_cycle st perm) = connections st"
    using timer_frame_choking_cycle [of st perm] by (simp add: timer_frame_def)
  show "is_optimistic (store (choking_cycle st perm) b) = is_optimistic (store st b)" for b
    by (simp add: choking_cycle_def Let_def fold_choke_step_optimistic)
qed

lemma one_optimistic_optimistic_cycle: "one_optimistic st \<Longrightarrow> one_optimistic (optimistic_cycle st r)"
proof (cases "optimistic_candidates st = []")
  case True
  then show "one_optimistic st \<Longrightarrow> ?thesis"
    by (simp add: optimistic_cycle_def)
next
  case False
  have reg: "connections (optimistic_cycle st r) = connections st"
    using timer_frame_optimistic_cycle [of st r] by (simp add: timer_frame_def)
  show ?thesis
    unfolding one_optimistic_def reg
    by (auto simp: optimistic_cycle_flags(2) [OF False refl] split: if_splits)
qed

lemma one_optimistic_register:
  assumes "one_optimistic st" "registry_ok st"
  shows "one_optimistic (fst (register st nid))"
proof -
  let ?new = "next_addr st"
  have reg: "connections (fst (register st nid)) = dict_set (connections st) nid ?new"
    by (simp add: register_eq registered_def send_to_flags split: outcome.splits)
  have opt: "is_optimistic (store (fst (register st nid)) b) =
      (if b = ?new then False else is_optimistic (store st b))" for b
    by (simp add: register_eq registered_def send_to_flags new_peer_connection_def
        split: outcome.splits)
  have sub: "set (dict_values (dict_set (connections st) nid ?new))
      \<subseteq> insert ?new (set (dict_values (connections st)))"
    by (rule dict_values_dict_set_subset)
  show ?thesis
    unfolding one_optimistic_def reg
  proof (intro ballI impI)
    fix c c'
    assume c: "c \<in> set (dict_values (dict_set (connections st) nid ?new))"
      and c': "c' \<in> set (dict_values (dict_set (connections st) nid ?new))"
      and o: "is_optimistic (store (fst (register st nid)) c) \<and>
              is_optimistic (store (fst (register st nid)) c')"
    from o have "c \<noteq> ?new" "c' \<noteq> ?new" "is_optimistic (store st c)" "is_optimistic (store st c')"
      by (auto simp: opt split: if_splits)
    moreover from this c c' sub have "c \<in> set (dict_values (connections st))"
      "c' \<in> set (dict_values (connections st))"
      by auto
    ultimately show "c = c'"
      using assms(1) by (simp add: one_optimistic_def)
  qed
qed

lemma one_optimistic_apply_event:
  assumes "one_optimistic st" "stable st"
  shows "one_optimistic (apply_event st ev)"
proof (cases ev)
  case (Connect nid)
  then show ?thesis
    using assms by (simp add: apply_event_def one_optimistic_register stable_def)
next
  case ServerStart
  then show ?thesis
    using assms(1) by (simp add: apply_event_def one_optimistic_def)
next
  case (Frame a t p r)
  then show ?thesis
    using assms(1) by (simp add: apply_event_def one_optimistic_handler_step)
next
  case (TransportFailure a)
  have "one_optimistic (upd_conn a break_transport st)"
    using assms(1) by (rule one_optimistic_same) (simp_all add: upd_conn_def break_transport_def)
  then show ?thesis
    using TransportFailure assms(1) by (simp add: apply_event_def)
next
  case (TransportError a)
  have "one_optimistic (upd_conn a close st)"
    using assms(1) by (rule one_optimistic_same) (simp_all add: upd_conn_def close_def)
  then show ?thesis
    using TransportError assms(1) by (simp add: apply_event_def)
next
  case (ChokeTick perm)
  then show ?thesis
    using assms(1) by (simp add: apply_event_def one_optimistic_choking_cycle)
next
  case (OptimisticTick r)
  then show ?thesis
    using assms(1) by (simp add: apply_event_def one_optimistic_optimistic_cycle)
next
  case TerminationTick
  then show ?thesis
    using assms(1) by (simp add: apply_event_def termination_check_eq one_optimistic_shutdown)
qed

lemma one_optimistic_run:
  assumes "one_optimistic st" "stable st"
  shows "one_optimistic (run st evs)"
proof (induction evs rule: rev_induct)
  case Nil
  then show ?case using assms(1) by (simp add: run_def)
next
  case (snoc ev evs)
  then show ?case
    using stable_run [OF assms(2), of evs] by (simp add: run_snoc one_optimistic_apply_event)
qed

lemma preferred_k_run: "preferred_k (run st evs) = preferred_k st"
proof (induction evs rule: rev_induct)
  case Nil
  then show ?case by (simp add: run_def)
next
  case (snoc ev evs)
  have "preferred_k (apply_event s ev) = preferred_k s" for s
  proof (cases "\<exists>nid. ev = Connect nid")
    case True
    have "preferred_k (fst (send_to s' b t p)) = preferred_k s'" for s' b t p
      by (simp add: send_to_def split: outcome.splits)
    then show ?thesis
      using True by (auto simp: apply_event_def register_eq registered_def split: outcome.splits)
  next
    case False
    then show ?thesis
      using soft_frame_apply_event [of ev s] by (simp add: soft_frame_def)
  qed
  then show ?case
    using snoc by (simp add: run_snoc)
qed

subsection \<open>What the two timers guarantee\<close>

text \<open>
  In every state that a run of events reaches from a new peer with \<open>k \<ge> 0\<close>: at most
  one session of the registry carries the optimistic mark; a preferred-neighbor cycle that
  finds an interested session leaves at most \<open>k + 1\<close> sessions unchoked (the preferred
  ones and the marked one); an optimistic cycle unchokes at most one session more than
  were unchoked before it, and chokes none.
\<close>

theorem unchoke_bounds:
  assumes "new_peer k n has_file fsize psize present = Return st0"
    and "st = run st0 evs" and "0 \<le> k"
  shows "length (optimistic_sessions st) \<le> 1 \<and>
         (interested_snapshot st \<noteq> [] \<longrightarrow> unchoked_count (choking_cycle st perm) \<le> nat k + 1) \<and>
         unchoked_count (optimistic_cycle st r) \<le> unchoked_count st + 1"
proof -
  have s0: "stable st0"
    using assms(1) by (rule stable_new_peer)
  have k0: "preferred_k st0 = k" and c0: "connections st0 = []"
    using assms(1) by (auto simp: new_peer_def split: outcome.splits)
  have "one_optimistic st0"
    by (simp add: one_optimistic_def c0 dict_values_def)
  then have o: "one_optimistic st"
    using s0 assms(2) by (simp add: one_optimistic_run)
  have s: "stable st"
    using s0 assms(2) by (simp add: stable_run)
  then have d: "distinct (dict_values (connections st))"
    by (simp add: stable_def registry_ok_def)
  have kk: "preferred_k st = k"
    using assms(2) k0 by (simp add: preferred_k_run)
  have one: "length (optimistic_sessions st) \<le> 1"
    unfolding optimistic_sessions_def
    using d o by (intro length_filter_unique) (auto simp: one_optimistic_def)
  have "unchoked_count (choking_cycle st perm) \<le> nat k + 1" if "interested_snapshot st \<noteq> []"
    using choking_cycle_bound [OF d _ that, of perm] kk assms(3) one by simp
  then show ?thesis
    using one optimistic_cycle_bound [OF d, of r] by blast
qed

theorem unchoke_bounds_witness:
  "interested_snapshot (run example_seeder
      [Connect 1001, Connect 1002, Connect 1003, Frame 0 MSG_INTERESTED [] 0,
       Frame 1 MSG_INTERESTED [] 0, Frame 2 MSG_INTERESTED [] 0, ChokeTick [0, 1, 2],
       OptimisticTick 0]) \<noteq> [] \<and>
   unchoked_count (choking_cycle (run example_seeder
      [Connect 1001, Connect 1002, Connect 1003, Frame 0 MSG_INTERESTED [] 0,
       Frame 1 MSG_INTERESTED [] 0, Frame 2 MSG_INTERESTED [] 0, ChokeTick [0, 1, 2],
       OptimisticTick 0]) [2, 0, 1]) \<le> 2"
proof -
  let ?st = "run example_seeder
      [Connect 1001, Connect 1002, Connect 1003, Frame 0 MSG_INTERESTED [] 0,
       Frame 1 MSG_INTERESTED [] 0, Frame 2 MSG_INTERESTED [] 0, ChokeTick [0, 1, 2],
       OptimisticTick 0]"
  have i: "interested_snapshot ?st \<noteq> []"
    by code_simp
  have k: "(0::int) \<le> 1"
    by simp
  have "unchoked_count (choking_cycle ?st [2, 0, 1]) \<le> nat 1 + 1"
    using unchoke_bounds [OF new_peer_example_seeder refl k, of _ "[2, 0, 1]" 0] i by blast
  then show ?thesis
    using i by simp
qed

subsection \<open>Claim C1\<close>

text \<open>
  C1 asks for at most \<open>k + 1\<close> unchoked sessions in every reachable state. The optimistic
  timer moves the mark to the session it chooses and unchokes it, but leaves the session
  that carried the mark unchoked until the next preferred-neighbor cycle. With \<open>k = 1\<close>
  and three interested neighbors, the run below (preferred cycle, optimistic cycle,
  preferred cycle with another choice, optimistic cycle) has two sessions unchoked after
  its third timer cycle and three after its fourth.
\<close>

theorem optimistic_rotation_exceeds_bound:
  "preferred_k (run example_seeder
      [Connect 1001, Connect 1002, Connect 1003, Frame 0 MSG_INTERESTED [] 0,
       Frame 1 MSG_INTERESTED [] 0, Frame 2 MSG_INTERESTED [] 0, ChokeTick [0, 1, 2],
       OptimisticTick 0, ChokeTick [2, 0, 1]]) = 1 \<and>
   unchoked_count (run example_seeder
      [Connect 1001, Connect 1002, Connect 1003, Frame 0 MSG_INTERESTED [] 0,
       Frame 1 MSG_INTERESTED [] 0, Frame 2 MSG_INTERESTED [] 0, ChokeTick [0, 1, 2],
       OptimisticTick 0, ChokeTick [2, 0, 1]]) = 2 \<and>
   unchoked_count (run example_seeder
      [Connect 1001, Connect 1002, Connect 1003, Frame 0 MSG_INTERESTED [] 0,
       Frame 1 MSG_INTERESTED [] 0, Frame 2 MSG_INTERESTED [] 0, ChokeTick [0, 1, 2],
       OptimisticTick 0, ChokeTick [2, 0, 1], OptimisticTick 0]) = 3"
  by code_simp

section \<open>The choice of the preferred neighbors\<close>








subsection \<open>Claim C2\<close>




end
